theory Spec2Isabelle
  imports Main "HOL-Library.Multiset"
begin

section \<open>Archive entries and tree nodes\<close>

text \<open>
  The model follows \<^verbatim>\<open>parseZipAsTree\<close>. The archive reader (adm-zip), the byte
  formatter \<^verbatim>\<open>prettyBytes\<close>, the date formatter, \<^verbatim>\<open>path.basename\<close> and
  \<^verbatim>\<open>String.prototype.localeCompare\<close> are collaborators outside the repository:
  the entry list returned by \<^verbatim>\<open>zip.getEntries()\<close> is the input of the model,
  \<^verbatim>\<open>basename\<close> and \<^verbatim>\<open>localeCompare\<close> are parameters, and a formatted string is
  kept as the formatter applied to its argument.

  Strings are lists of characters; only the separator \<^verbatim>\<open>/\<close> is ever inspected.
  Sizes are natural numbers: the sums of the source are sums of non-negative integers,
  which JavaScript numbers represent exactly below \<open>2^53\<close>.
\<close>

record header =
  hdr_size :: nat
  hdr_compressedSize :: nat
  hdr_time :: nat

text \<open>A \<^verbatim>\<open>ZipEntry\<close> as the archive reader hands it over.\<close>

record zipEntry =
  isDirectory :: bool
  name :: string
  entryName :: string
  header :: "header option"

datatype pretty = PrettyBytes "nat option"

datatype formatted = Format nat

text \<open>The object literal of lines 23 to 35, built for every entry that is not a directory.\<close>

record fileObj = zipEntry +
  originFileSize :: "nat option"
  originCompressedSize :: "nat option"
  fileSize :: pretty
  compressedSize :: pretty
  modifyDateTime :: "formatted option"

text \<open>
  A value held in \<^verbatim>\<open>files\<close>, in a \<^verbatim>\<open>children\<close> array or in \<^verbatim>\<open>fileMap\<close>:
  an entry object of the archive reader (used as it is when it is a directory), a file
  object built by lines 23 to 35, or a reference to a directory object created by lines
  47 to 52. Such a directory object is created and stored under
  \<^verbatim>\<open>folderMap[parentPath]\<close> in one statement, and no key of \<^verbatim>\<open>folderMap\<close> is ever
  reassigned or deleted, so the key is the address of the object: \<open>Ref k\<close> is the
  object stored under key \<open>k\<close>, and \<^verbatim>\<open>folderMap\<close> is the store that holds its fields.
\<close>

datatype node = Origin zipEntry | File fileObj | Ref string

text \<open>The object literal of lines 47 to 52; the two size strings are set by lines 71 and 72.\<close>

record dirObj =
  dirIsDirectory :: bool
  children :: "node list"
  dirEntryName :: string
  dirName :: string
  dirFileSize :: "pretty option"
  dirCompressedSize :: "pretty option"

datatype error = TypeError

section \<open>JavaScript objects used as dictionaries\<close>

text \<open>
  An object created by \<^verbatim>\<open>{}\<close> is the list of its own properties in enumeration
  order: keys that are array indices first, in ascending numeric order, then the other
  keys in the order of their creation.
\<close>

type_synonym 'v jsobj = "(string \<times> 'v) list"

definition dec_val :: "string \<Rightarrow> nat" where
  "dec_val s = foldl (\<lambda>n c. 10 * n + (of_char c - 48)) 0 s"

definition is_array_index :: "string \<Rightarrow> bool" where
  "is_array_index s \<longleftrightarrow>
     s \<noteq> [] \<and> (\<forall>c \<in> set s. c \<in> set ''0123456789'') \<and>
     (s = ''0'' \<or> hd s \<noteq> CHR ''0'') \<and> dec_val s < 2 ^ 32 - 1"

definition js_keys :: "'v jsobj \<Rightarrow> string list" where
  "js_keys obj = map fst obj"

definition js_get :: "'v jsobj \<Rightarrow> string \<Rightarrow> 'v option" where
  "js_get obj k = map_of obj k"

fun js_replace :: "string \<Rightarrow> 'v \<Rightarrow> 'v jsobj \<Rightarrow> 'v jsobj" where
  "js_replace k v [] = []"
| "js_replace k v ((k', v') # kvs) =
     (if k' = k then (k, v) # kvs else (k', v') # js_replace k v kvs)"

fun js_insert :: "string \<Rightarrow> 'v \<Rightarrow> 'v jsobj \<Rightarrow> 'v jsobj" where
  "js_insert k v [] = [(k, v)]"
| "js_insert k v ((k', v') # kvs) =
     (if is_array_index k \<and> (\<not> is_array_index k' \<or> dec_val k < dec_val k')
      then (k, v) # (k', v') # kvs
      else (k', v') # js_insert k v kvs)"

text \<open>\<^verbatim>\<open>obj[k] = v\<close> for a key that is not \<^verbatim>\<open>__proto__\<close>.\<close>

definition js_set :: "string \<Rightarrow> 'v \<Rightarrow> 'v jsobj \<Rightarrow> 'v jsobj" where
  "js_set k v obj = (if k \<in> set (js_keys obj) then js_replace k v obj else js_insert k v obj)"

text \<open>
  The names that every object inherits from \<^verbatim>\<open>Object.prototype\<close>. Reading one of
  them from an object that has no own property of that name gives a function (or, for
  \<^verbatim>\<open>__proto__\<close>, the prototype object): a truthy value that has no \<^verbatim>\<open>children\<close>.
\<close>

definition object_prototype_names :: "string list" where
  "object_prototype_names =
     [''constructor'', ''__defineGetter__'', ''__defineSetter__'', ''hasOwnProperty'',
      ''__lookupGetter__'', ''__lookupSetter__'', ''isPrototypeOf'', ''propertyIsEnumerable'',
      ''toString'', ''valueOf'', ''__proto__'', ''toLocaleString'']"

text \<open>
  \<^verbatim>\<open>fileMap[k] = v\<close>: assigning to \<^verbatim>\<open>__proto__\<close> runs the inherited setter, which
  replaces the prototype of \<^verbatim>\<open>fileMap\<close> and creates no own property.
\<close>

definition fileMap_assign :: "string \<Rightarrow> 'v \<Rightarrow> 'v jsobj \<Rightarrow> 'v jsobj" where
  "fileMap_assign k v obj = (if k = ''__proto__'' then obj else js_set k v obj)"

text \<open>Mutation of the object stored under a key: the key order is untouched.\<close>

definition store_update :: "string \<Rightarrow> ('v \<Rightarrow> 'v) \<Rightarrow> 'v jsobj \<Rightarrow> 'v jsobj" where
  "store_update k f obj = map (\<lambda>(k', v). if k' = k then (k', f v) else (k', v)) obj"

section \<open>Paths\<close>

text \<open>\<^verbatim>\<open>s.split('/')\<close>: never empty, \<^verbatim>\<open>''.split('/')\<close> is \<^verbatim>\<open>['']\<close>.\<close>

fun split :: "string \<Rightarrow> string list" where
  "split [] = [[]]"
| "split (c # cs) =
     (if c = CHR ''/'' then [] # split cs
      else (case split cs of [] \<Rightarrow> [[c]] | w # ws \<Rightarrow> (c # w) # ws))"

text \<open>\<^verbatim>\<open>paths.join('/')\<close>.\<close>

fun join :: "string list \<Rightarrow> string" where
  "join [] = []"
| "join [w] = w"
| "join (w # ws) = w @ CHR ''/'' # join ws"

text \<open>Lines 36 and 37: the segments left after \<^verbatim>\<open>paths.pop()\<close>.\<close>

definition parent_segments :: "string \<Rightarrow> string list" where
  "parent_segments e = butlast (split e)"

section \<open>Reading the fields of a node\<close>

type_synonym folderMap = "dirObj jsobj"

text \<open>
  A reference is read through the store. Every reference the program creates has a
  target (lemma \<open>build_refs_closed\<close> below); the \<open>None\<close> branches only keep the
  readers total.
\<close>

fun node_isDirectory :: "folderMap \<Rightarrow> node \<Rightarrow> bool" where
  "node_isDirectory fm (Origin e) = isDirectory e"
| "node_isDirectory fm (File f) = isDirectory f"
| "node_isDirectory fm (Ref k) = (case js_get fm k of None \<Rightarrow> False | Some d \<Rightarrow> dirIsDirectory d)"

fun node_name :: "folderMap \<Rightarrow> node \<Rightarrow> string" where
  "node_name fm (Origin e) = name e"
| "node_name fm (File f) = name f"
| "node_name fm (Ref k) = (case js_get fm k of None \<Rightarrow> [] | Some d \<Rightarrow> dirName d)"

fun node_entryName :: "folderMap \<Rightarrow> node \<Rightarrow> string" where
  "node_entryName fm (Origin e) = entryName e"
| "node_entryName fm (File f) = entryName f"
| "node_entryName fm (Ref k) = (case js_get fm k of None \<Rightarrow> [] | Some d \<Rightarrow> dirEntryName d)"

fun node_header :: "node \<Rightarrow> header option" where
  "node_header (Origin e) = header e"
| "node_header (File f) = header f"
| "node_header (Ref k) = None"

fun node_children :: "folderMap \<Rightarrow> node \<Rightarrow> node list option" where
  "node_children fm (Ref k) = map_option children (js_get fm k)"
| "node_children fm _ = None"

datatype sizeProp = OriginFileSize | OriginCompressedSize

fun node_prop :: "node \<Rightarrow> sizeProp \<Rightarrow> nat option" where
  "node_prop (File f) OriginFileSize = originFileSize f"
| "node_prop (File f) OriginCompressedSize = originCompressedSize f"
| "node_prop _ _ = None"

section \<open>The builder\<close>

record state =
  files :: "node list"
  fileMap :: "node jsobj"
  folderMap :: folderMap

text \<open>Lines 23 to 35.\<close>

definition make_entry :: "folderMap \<Rightarrow> node \<Rightarrow> node" where
  "make_entry fm origin =
     (if node_isDirectory fm origin then origin
      else File \<lparr> isDirectory = node_isDirectory fm origin,
                  name = node_name fm origin,
                  entryName = node_entryName fm origin,
                  header = node_header origin,
                  originFileSize = map_option hdr_size (node_header origin),
                  originCompressedSize = map_option hdr_compressedSize (node_header origin),
                  fileSize = PrettyBytes (map_option hdr_size (node_header origin)),
                  compressedSize = PrettyBytes (map_option hdr_compressedSize (node_header origin)),
                  modifyDateTime = map_option (\<lambda>h. Format (hdr_time h)) (node_header origin) \<rparr>)"

text \<open>Lines 23 to 54: the body of the loop of \<^verbatim>\<open>parseFlatItems\<close> for one item.\<close>

definition loop_body :: "(string \<Rightarrow> string) \<Rightarrow> node \<Rightarrow> state \<Rightarrow> error + state" where
  "loop_body basename origin st =
     (let entry = make_entry (folderMap st) origin;
          paths = parent_segments (node_entryName (folderMap st) entry)
      in if paths = [] then
           Inr (st \<lparr> files := files st @ [entry],
                     fileMap := (if \<not> node_isDirectory (folderMap st) entry
                                 then fileMap_assign (node_entryName (folderMap st) entry) entry (fileMap st)
                                 else fileMap st) \<rparr>)
         else
           let parentPath = join paths in
           (case js_get (folderMap st) parentPath of
              Some dir \<Rightarrow>
                Inr (st \<lparr> folderMap := store_update parentPath
                                          (\<lambda>d. d \<lparr> children := children d @ [entry] \<rparr>) (folderMap st),
                          fileMap := (if \<not> node_isDirectory (folderMap st) entry
                                      then fileMap_assign (node_entryName (folderMap st) entry) entry (fileMap st)
                                      else fileMap st) \<rparr>)
            | None \<Rightarrow>
                if parentPath \<in> set object_prototype_names then Inl TypeError
                else Inr (st \<lparr> folderMap := js_set parentPath
                                 \<lparr> dirIsDirectory = True, children = [entry],
                                   dirEntryName = parentPath, dirName = basename parentPath,
                                   dirFileSize = None, dirCompressedSize = None \<rparr>
                                 (folderMap st) \<rparr>)))"

fun parseFlatItems :: "(string \<Rightarrow> string) \<Rightarrow> node list \<Rightarrow> state \<Rightarrow> error + state" where
  "parseFlatItems basename [] st = Inr st"
| "parseFlatItems basename (origin # entrys) st =
     (case loop_body basename origin st of
        Inl e \<Rightarrow> Inl e
      | Inr st' \<Rightarrow> parseFlatItems basename entrys st')"

text \<open>Lines 17 to 19 and 58 to 59: both passes.\<close>

definition build :: "(string \<Rightarrow> string) \<Rightarrow> zipEntry list \<Rightarrow> error + state" where
  "build basename zipEntries =
     (case parseFlatItems basename (map Origin zipEntries) \<lparr> files = [], fileMap = [], folderMap = [] \<rparr> of
        Inl e \<Rightarrow> Inl e
      | Inr st \<Rightarrow> parseFlatItems basename (map Ref (js_keys (folderMap st))) st)"

section \<open>Sorting and aggregation\<close>

text \<open>Lines 61 to 66.\<close>

definition sortFiles :: "(string \<Rightarrow> string \<Rightarrow> int) \<Rightarrow> folderMap \<Rightarrow> node \<Rightarrow> node \<Rightarrow> int" where
  "sortFiles localeCompare fm a b =
     (if node_isDirectory fm a \<and> node_isDirectory fm b then localeCompare (node_name fm a) (node_name fm b)
      else if node_isDirectory fm a then - 1
      else if node_isDirectory fm b then 1
      else localeCompare (node_name fm a) (node_name fm b))"

text \<open>
  \<^verbatim>\<open>Array.prototype.sort\<close> is stable. For a comparator that is a total preorder the
  sorted array is therefore unique, and it is the one that stable insertion gives.
\<close>

fun insert_sorted :: "('a \<Rightarrow> 'a \<Rightarrow> int) \<Rightarrow> 'a \<Rightarrow> 'a list \<Rightarrow> 'a list" where
  "insert_sorted cmp x [] = [x]"
| "insert_sorted cmp x (y # ys) =
     (if cmp x y \<le> 0 then x # y # ys else y # insert_sorted cmp x ys)"

definition array_sort :: "('a \<Rightarrow> 'a \<Rightarrow> int) \<Rightarrow> 'a list \<Rightarrow> 'a list" where
  "array_sort cmp xs = foldr (insert_sorted cmp) xs []"

text \<open>
  Lines 83 to 92. The recursion follows \<^verbatim>\<open>children\<close> through the store and has no
  guard of its own, so the model is a partial function: \<open>None\<close> is a call that does
  not return.
\<close>

partial_function (option) sum_js :: "folderMap \<Rightarrow> node list \<Rightarrow> sizeProp \<Rightarrow> nat \<Rightarrow> nat option" where
  "sum_js fm array prop res =
     (case array of
        [] \<Rightarrow> Some res
      | item # rest \<Rightarrow>
          (let v = (case node_prop item prop of None \<Rightarrow> 0 | Some n \<Rightarrow> n) in
           case node_children fm item of
             None \<Rightarrow> sum_js fm rest prop (res + v + 0)
           | Some cs \<Rightarrow>
               Option.bind (sum_js fm cs prop 0)
                 (\<lambda>childSize. sum_js fm rest prop (res + v + childSize))))"

declare sum_js.simps [code]

text \<open>Lines 68 to 73: a \<^verbatim>\<open>for-in\<close> loop skips a key that is no longer there.\<close>

fun finalize_dirs :: "(string \<Rightarrow> string \<Rightarrow> int) \<Rightarrow> string list \<Rightarrow> folderMap \<Rightarrow> folderMap option" where
  "finalize_dirs localeCompare [] fm = Some fm"
| "finalize_dirs localeCompare (key # keys) fm =
     (case js_get fm key of
        None \<Rightarrow> finalize_dirs localeCompare keys fm
      | Some element \<Rightarrow>
          (let fm1 = store_update key
                       (\<lambda>d. d \<lparr> children := array_sort (sortFiles localeCompare fm) (children element) \<rparr>) fm
           in Option.bind (sum_js fm1 (array_sort (sortFiles localeCompare fm) (children element)) OriginFileSize 0)
                (\<lambda>s. let fm2 = store_update key (\<lambda>d. d \<lparr> dirFileSize := Some (PrettyBytes (Some s)) \<rparr>) fm1
                     in Option.bind (sum_js fm2 (array_sort (sortFiles localeCompare fm) (children element)) OriginCompressedSize 0)
                          (\<lambda>c. finalize_dirs localeCompare keys
                                 (store_update key (\<lambda>d. d \<lparr> dirCompressedSize := Some (PrettyBytes (Some c)) \<rparr>) fm2)))))"

text \<open>Lines 68 to 74.\<close>

definition finalize :: "(string \<Rightarrow> string \<Rightarrow> int) \<Rightarrow> state \<Rightarrow> state option" where
  "finalize localeCompare st =
     Option.bind (finalize_dirs localeCompare (js_keys (folderMap st)) (folderMap st))
       (\<lambda>fm. Some (st \<lparr> folderMap := fm, files := array_sort (sortFiles localeCompare fm) (files st) \<rparr>))"

text \<open>
  The whole function. \<open>Some (Inr r)\<close>: it returns \<open>r\<close>; \<open>Some (Inl e)\<close>: it throws
  \<open>e\<close>; \<open>None\<close>: it does not return.
\<close>

definition parseZipAsTree ::
  "(string \<Rightarrow> string \<Rightarrow> int) \<Rightarrow> (string \<Rightarrow> string) \<Rightarrow> zipEntry list \<Rightarrow> (error + state) option" where
  "parseZipAsTree localeCompare basename zipEntries =
     (case build basename zipEntries of
        Inl e \<Rightarrow> Some (Inl e)
      | Inr st \<Rightarrow> map_option Inr (finalize localeCompare st))"

section \<open>Concrete collaborators and inputs for the examples\<close>

text \<open>
  \<^verbatim>\<open>path.posix.basename\<close>: trailing separators are dropped, then the part after the
  last separator is returned.
\<close>

definition posix_basename :: "string \<Rightarrow> string" where
  "posix_basename p =
     rev (takeWhile (\<lambda>c. c \<noteq> CHR ''/'') (dropWhile (\<lambda>c. c = CHR ''/'') (rev p)))"

text \<open>A comparison of strings by character code; it stands for \<^verbatim>\<open>localeCompare\<close> in the examples.\<close>

fun codepoint_compare :: "string \<Rightarrow> string \<Rightarrow> int" where
  "codepoint_compare [] [] = 0"
| "codepoint_compare [] (y # ys) = - 1"
| "codepoint_compare (x # xs) [] = 1"
| "codepoint_compare (x # xs) (y # ys) =
     (if (of_char x :: nat) < of_char y then - 1
      else if (of_char y :: nat) < of_char x then 1
      else codepoint_compare xs ys)"

definition file_entry :: "string \<Rightarrow> string \<Rightarrow> nat \<Rightarrow> zipEntry" where
  "file_entry p n s = \<lparr> isDirectory = False, name = n, entryName = p,
       header = Some \<lparr> hdr_size = s, hdr_compressedSize = s, hdr_time = 0 \<rparr> \<rparr>"

definition dir_entry :: "string \<Rightarrow> string \<Rightarrow> zipEntry" where
  "dir_entry p n = \<lparr> isDirectory = True, name = n, entryName = p,
       header = Some \<lparr> hdr_size = 0, hdr_compressedSize = 0, hdr_time = 0 \<rparr> \<rparr>"

definition deep_files :: "zipEntry list" where
  "deep_files = [file_entry ''a/b/c/d.txt'' ''d.txt'' 1, file_entry ''a/b/c/e.txt'' ''e.txt'' 1]"

definition nested_files :: "zipEntry list" where
  "nested_files = [file_entry ''p/q/r.txt'' ''r.txt'' 1, file_entry ''p/q/s.txt'' ''s.txt'' 2]"

definition explicit_dir_and_file :: "zipEntry list" where
  "explicit_dir_and_file = [dir_entry ''x/'' ''x'', file_entry ''x/y.txt'' ''y.txt'' 5]"

definition same_name_files :: "zipEntry list" where
  "same_name_files = [file_entry ''a.txt'' ''a.txt'' 1, file_entry ''a.txt'' ''a.txt'' 2]"

definition mixed_entries :: "zipEntry list" where
  "mixed_entries = [file_entry ''b.txt'' ''b.txt'' 1, file_entry ''d/c.txt'' ''c.txt'' 2, dir_entry ''d/'' ''d'']"

definition root_marker_and_empty :: "zipEntry list" where
  "root_marker_and_empty =
     [dir_entry ''/'' [], file_entry [] [] 1, file_entry ''a.txt'' ''a.txt'' 2]"

definition collision_explicit :: "zipEntry list" where
  "collision_explicit =
     [dir_entry ''x/'' ''x'', file_entry ''x/y.txt'' ''y.txt'' 1, file_entry ''x'' ''x'' 2]"

definition collision :: "zipEntry list" where
  "collision = [file_entry ''x/y.txt'' ''y.txt'' 1, file_entry ''x'' ''x'' 2]"

section \<open>Notions used to state the properties\<close>

text \<open>What the comparison function must satisfy for a sort to have a defined result.\<close>

definition total_preorder :: "('a \<Rightarrow> 'a \<Rightarrow> int) \<Rightarrow> bool" where
  "total_preorder cmp \<longleftrightarrow>
     (\<forall>a b. cmp a b \<le> 0 \<or> cmp b a \<le> 0) \<and>
     (\<forall>a b c. cmp a b \<le> 0 \<and> cmp b c \<le> 0 \<longrightarrow> cmp a c \<le> 0)"

text \<open>The node that lines 23 to 35 give for an entry of the archive.\<close>

definition entry_of :: "zipEntry \<Rightarrow> node" where
  "entry_of e = make_entry [] (Origin e)"

definition has_parent :: "string \<Rightarrow> bool" where
  "has_parent p \<longleftrightarrow> parent_segments p \<noteq> []"

definition parent_path :: "string \<Rightarrow> string" where
  "parent_path p = join (parent_segments p)"

text \<open>
  The proper path prefixes of a path: its parent path, the parent path of that one, and
  so on, as long as there is one.
\<close>

inductive ancestor :: "string \<Rightarrow> string \<Rightarrow> bool" where
  parent: "has_parent p \<Longrightarrow> ancestor (parent_path p) p"
| further: "ancestor q p \<Longrightarrow> has_parent q \<Longrightarrow> ancestor (parent_path q) p"

text \<open>
  The entry is in the tree: among the roots when its path has no parent, otherwise among
  the children of the directory stored under its parent path.
\<close>

definition placed :: "state \<Rightarrow> zipEntry \<Rightarrow> bool" where
  "placed r e =
     (if has_parent (entryName e)
      then (case js_get (folderMap r) (parent_path (entryName e)) of
              None \<Rightarrow> False
            | Some d \<Rightarrow> entry_of e \<in> set (children d))
      else entry_of e \<in> set (files r))"

text \<open>
  The ordering law for a sequence of nodes: no file before a directory, and names in
  non-decreasing order among the directories and among the files.
\<close>

definition ordered :: "(string \<Rightarrow> string \<Rightarrow> int) \<Rightarrow> folderMap \<Rightarrow> node list \<Rightarrow> bool" where
  "ordered localeCompare fm xs \<longleftrightarrow>
     sorted_wrt (\<lambda>a b. \<not> (\<not> node_isDirectory fm a \<and> node_isDirectory fm b)) xs \<and>
     sorted_wrt (\<lambda>a b. node_isDirectory fm a = node_isDirectory fm b \<longrightarrow>
                        localeCompare (node_name fm a) (node_name fm b) \<le> 0) xs"

text \<open>No two nodes of the sequence compare as equal.\<close>

definition no_ties :: "(string \<Rightarrow> string \<Rightarrow> int) \<Rightarrow> folderMap \<Rightarrow> node list \<Rightarrow> bool" where
  "no_ties localeCompare fm xs \<longleftrightarrow>
     (\<forall>a \<in> set xs. \<forall>b \<in> set xs.
        sortFiles localeCompare fm a b \<le> 0 \<and> sortFiles localeCompare fm b a \<le> 0 \<longrightarrow> a = b)"

text \<open>\<^verbatim>\<open>item[prop] ?? 0\<close>.\<close>

definition own_size :: "sizeProp \<Rightarrow> node \<Rightarrow> nat" where
  "own_size p x = (case node_prop x p of None \<Rightarrow> 0 | Some n \<Rightarrow> n)"

text \<open>
  The file nodes reachable from a node through \<^verbatim>\<open>children\<close> edges, following at most
  \<open>n\<close> references. A file node is an object built by lines 23 to 35; the entry of the
  archive for a directory and a directory object are not files.
\<close>

fun files_below :: "nat \<Rightarrow> folderMap \<Rightarrow> node \<Rightarrow> node list" where
  "files_below n fm (File f) = [File f]"
| "files_below n fm (Origin e) = []"
| "files_below 0 fm (Ref k) = []"
| "files_below (Suc n) fm (Ref k) =
     (case js_get fm k of
        None \<Rightarrow> []
      | Some d \<Rightarrow> concat (map (files_below n fm) (children d)))"

text \<open>
  Every reference held in a \<^verbatim>\<open>children\<close> array has a target, and the key of the
  target is longer than the key of the directory that holds the reference.
\<close>

definition refs_closed :: "folderMap \<Rightarrow> bool" where
  "refs_closed fm \<longleftrightarrow>
     (\<forall>k d k'. js_get fm k = Some d \<and> Ref k' \<in> set (children d) \<longrightarrow>
        k' \<in> set (js_keys fm) \<and> length k < length k')"

text \<open>
  Reachability through \<^verbatim>\<open>children\<close> edges: the node is a child of the directory
  stored under \<open>k\<close>, or it is reachable from a directory that is such a child.
\<close>

inductive reaches :: "folderMap \<Rightarrow> string \<Rightarrow> node \<Rightarrow> bool" for fm :: folderMap where
  child: "js_get fm k = Some d \<Longrightarrow> x \<in> set (children d) \<Longrightarrow> reaches fm k x"
| below: "js_get fm k = Some d \<Longrightarrow> Ref k' \<in> set (children d) \<Longrightarrow> reaches fm k' x \<Longrightarrow>
          reaches fm k x"

text \<open>
  A bound on the number of references in a chain. In a store with \<open>refs_closed\<close> the
  keys along a chain of references get strictly longer, so a chain has at most as many
  references as the longest key has characters, plus one.
\<close>

definition depth_bound :: "folderMap \<Rightarrow> nat" where
  "depth_bound fm = Suc (foldr max (map length (js_keys fm)) 0)"

definition reachable_files :: "folderMap \<Rightarrow> node \<Rightarrow> node list" where
  "reachable_files fm x = files_below (depth_bound fm) fm x"

section \<open>Notions used in the proofs\<close>

definition empty_state :: state where
  "empty_state = \<lparr> files = [], fileMap = [], folderMap = [] \<rparr>"

definition new_dir :: "(string \<Rightarrow> string) \<Rightarrow> string \<Rightarrow> node list \<Rightarrow> dirObj" where
  "new_dir basename k cs =
     \<lparr> dirIsDirectory = True, children = cs, dirEntryName = k, dirName = basename k,
       dirFileSize = None, dirCompressedSize = None \<rparr>"

text \<open>Lines 43 to 53 on \<^verbatim>\<open>folderMap\<close>, for a parent path that does not make them throw.\<close>

definition add_child :: "(string \<Rightarrow> string) \<Rightarrow> string \<Rightarrow> node \<Rightarrow> folderMap \<Rightarrow> folderMap" where
  "add_child basename q x fm =
     (case js_get fm q of
        Some d \<Rightarrow> store_update q (\<lambda>d. d \<lparr> children := children d @ [x] \<rparr>) fm
      | None \<Rightarrow> js_set q (new_dir basename q [x]) fm)"

text \<open>
  The loop body for an item of path \<open>p\<close> whose node is \<open>x\<close>; \<open>isdir\<close> is its
  directory flag.
\<close>

definition place :: "(string \<Rightarrow> string) \<Rightarrow> string \<times> node \<times> bool \<Rightarrow> state \<Rightarrow> error + state" where
  "place basename item st =
     (case item of (p, x, isdir) \<Rightarrow>
        if \<not> has_parent p then
          Inr (st \<lparr> files := files st @ [x],
                    fileMap := (if \<not> isdir then fileMap_assign p x (fileMap st) else fileMap st) \<rparr>)
        else if js_get (folderMap st) (parent_path p) = None \<and> parent_path p \<in> set object_prototype_names
        then Inl TypeError
        else Inr (st \<lparr> folderMap := add_child basename (parent_path p) x (folderMap st),
                       fileMap := (if js_get (folderMap st) (parent_path p) \<noteq> None \<and> \<not> isdir
                                   then fileMap_assign p x (fileMap st) else fileMap st) \<rparr>))"

fun place_all :: "(string \<Rightarrow> string) \<Rightarrow> (string \<times> node \<times> bool) list \<Rightarrow> state \<Rightarrow> error + state" where
  "place_all basename [] st = Inr st"
| "place_all basename (item # items) st =
     (case place basename item st of Inl e \<Rightarrow> Inl e | Inr st' \<Rightarrow> place_all basename items st')"

definition origin_item :: "zipEntry \<Rightarrow> string \<times> node \<times> bool" where
  "origin_item e = (entryName e, entry_of e, isDirectory e)"

definition ref_item :: "string \<Rightarrow> string \<times> node \<times> bool" where
  "ref_item k = (k, Ref k, True)"

text \<open>The nodes that a list of items gives to the directory of path \<open>k\<close>, and to the root.\<close>

definition children_for :: "string \<Rightarrow> (string \<times> node \<times> bool) list \<Rightarrow> node list" where
  "children_for k items =
     map (\<lambda>(p, x, isdir). x) (filter (\<lambda>(p, x, isdir). has_parent p \<and> parent_path p = k) items)"

definition roots_of :: "(string \<times> node \<times> bool) list \<Rightarrow> node list" where
  "roots_of items = map (\<lambda>(p, x, isdir). x) (filter (\<lambda>(p, x, isdir). \<not> has_parent p) items)"

fun extend_dir :: "(string \<Rightarrow> string) \<Rightarrow> string \<Rightarrow> dirObj option \<Rightarrow> node list \<Rightarrow> dirObj option" where
  "extend_dir basename k None [] = None"
| "extend_dir basename k None cs = Some (new_dir basename k cs)"
| "extend_dir basename k (Some d) cs = Some (d \<lparr> children := children d @ cs \<rparr>)"

definition dirs_ok :: "(string \<Rightarrow> string) \<Rightarrow> folderMap \<Rightarrow> bool" where
  "dirs_ok basename fm \<longleftrightarrow>
     (\<forall>k d. js_get fm k = Some d \<longrightarrow> dirIsDirectory d \<and> dirEntryName d = k \<and> dirName d = basename k)"

definition proto_free :: "folderMap \<Rightarrow> bool" where
  "proto_free fm \<longleftrightarrow> set (js_keys fm) \<inter> set object_prototype_names = {}"

text \<open>Every chain of references from the node ends within \<open>n\<close> steps.\<close>

fun covered :: "nat \<Rightarrow> folderMap \<Rightarrow> node \<Rightarrow> bool" where
  "covered 0 fm x = (node_children fm x = None)"
| "covered (Suc n) fm x =
     (case node_children fm x of None \<Rightarrow> True | Some cs \<Rightarrow> \<forall>c \<in> set cs. covered n fm c)"

definition total_size :: "sizeProp \<Rightarrow> folderMap \<Rightarrow> node list \<Rightarrow> nat" where
  "total_size p fm xs = sum_list (map (own_size p) (concat (map (reachable_files fm) xs)))"

text \<open>
  Two stores with the same directories, in any order of the keys, whose children agree
  up to their order.
\<close>

definition same_shape :: "folderMap \<Rightarrow> folderMap \<Rightarrow> bool" where
  "same_shape fm fm' \<longleftrightarrow>
     set (js_keys fm') = set (js_keys fm) \<and>
     (\<forall>k d. js_get fm k = Some d \<longrightarrow>
        (\<exists>d'. js_get fm' k = Some d' \<and> mset (children d') = mset (children d) \<and>
              dirIsDirectory d' = dirIsDirectory d \<and> dirName d' = dirName d))"

text \<open>What lines 70 to 72 leave in a directory object.\<close>

definition finalized :: "(string \<Rightarrow> string \<Rightarrow> int) \<Rightarrow> folderMap \<Rightarrow> dirObj \<Rightarrow> dirObj" where
  "finalized localeCompare fm d =
     d \<lparr> children := array_sort (sortFiles localeCompare fm) (children d),
         dirFileSize := Some (PrettyBytes (Some (total_size OriginFileSize fm (children d)))),
         dirCompressedSize := Some (PrettyBytes (Some (total_size OriginCompressedSize fm (children d)))) \<rparr>"

definition finalized_state :: "(string \<Rightarrow> string \<Rightarrow> int) \<Rightarrow> state \<Rightarrow> state" where
  "finalized_state localeCompare st =
     st \<lparr> folderMap := map (\<lambda>(k, d). (k, finalized localeCompare (folderMap st) d)) (folderMap st),
          files := array_sort (sortFiles localeCompare (folderMap st)) (files st) \<rparr>"

section \<open>Properties of the model\<close>

subsection \<open>Objects as dictionaries\<close>

lemma js_keys_Nil [simp]: "js_keys [] = []"
  by (simp add: js_keys_def)

lemma js_keys_Cons [simp]: "js_keys ((k, v) # obj) = k # js_keys obj"
  by (simp add: js_keys_def)

lemma set_js_keys: "set (js_keys obj) = fst ` set obj"
  by (simp add: js_keys_def)

lemma js_get_replace:
  "js_get (js_replace k v obj) k' = (if k' = k \<and> k \<in> set (js_keys obj) then Some v else js_get obj k')"
  by (induction obj) (auto simp: js_get_def)

lemma js_keys_replace: "js_keys (js_replace k v obj) = js_keys obj"
  by (induction obj) auto

lemma js_get_insert:
  "k \<notin> set (js_keys obj) \<Longrightarrow> js_get (js_insert k v obj) k' = (if k' = k then Some v else js_get obj k')"
  by (induction obj) (auto simp: js_get_def)

lemma set_js_keys_insert: "set (js_keys (js_insert k v obj)) = insert k (set (js_keys obj))"
  by (induction obj) (auto split: if_splits)

lemma distinct_js_keys_insert:
  "k \<notin> set (js_keys obj) \<Longrightarrow> distinct (js_keys obj) \<Longrightarrow> distinct (js_keys (js_insert k v obj))"
proof (induction obj)
  case Nil
  then show ?case by simp
next
  case (Cons a obj)
  obtain k' v' where a: "a = (k', v')" by (cases a)
  have "k' \<notin> set (js_keys (js_insert k v obj))"
    using Cons.prems by (auto simp: a set_js_keys_insert)
  with Cons show ?case by (auto simp: a)
qed

lemma js_get_set: "js_get (js_set k v obj) k' = (if k' = k then Some v else js_get obj k')"
  by (simp add: js_set_def js_get_replace js_get_insert)

lemma set_js_keys_set: "set (js_keys (js_set k v obj)) = insert k (set (js_keys obj))"
  by (auto simp: js_set_def js_keys_replace set_js_keys_insert)

lemma distinct_js_keys_set: "distinct (js_keys obj) \<Longrightarrow> distinct (js_keys (js_set k v obj))"
  by (simp add: js_set_def js_keys_replace distinct_js_keys_insert)

lemma js_keys_store_update: "js_keys (store_update k f obj) = js_keys obj"
  by (induction obj) (auto simp: store_update_def)

lemma js_get_store_update:
  "js_get (store_update k f obj) k' = (if k' = k then map_option f (js_get obj k) else js_get obj k')"
  by (induction obj) (auto simp: js_get_def store_update_def)

lemma js_get_Some_keys: "js_get obj k = Some v \<Longrightarrow> k \<in> set (js_keys obj)"
  by (auto simp: js_get_def js_keys_def dest: map_of_SomeD intro: rev_image_eqI)

lemma js_get_None_keys: "js_get obj k = None \<longleftrightarrow> k \<notin> set (js_keys obj)"
  by (simp add: js_get_def js_keys_def map_of_eq_None_iff)

lemma js_get_in_set: "js_get obj k = Some v \<Longrightarrow> (k, v) \<in> set obj"
  by (simp add: js_get_def map_of_SomeD)

lemma in_set_js_get: "distinct (js_keys obj) \<Longrightarrow> (k, v) \<in> set obj \<Longrightarrow> js_get obj k = Some v"
  by (simp add: js_get_def js_keys_def)

lemma set_js_keys_fileMap_assign:
  "set (js_keys (fileMap_assign k v obj)) = (if k = ''__proto__'' then set (js_keys obj) else insert k (set (js_keys obj)))"
  by (simp add: fileMap_assign_def set_js_keys_set)

subsection \<open>Paths\<close>

lemma split_not_Nil [simp]: "split s \<noteq> []"
  by (induction s) (auto split: list.splits)

lemma join_Cons: "ws \<noteq> [] \<Longrightarrow> join (w # ws) = w @ CHR ''/'' # join ws"
  by (cases ws) auto

lemma join_split: "join (split s) = s"
proof (induction s)
  case Nil
  then show ?case by simp
next
  case (Cons c s)
  show ?case
  proof (cases "c = CHR ''/''")
    case True
    then show ?thesis using Cons by (simp add: join_Cons)
  next
    case False
    obtain w ws where sp: "split s = w # ws" by (cases "split s") auto
    show ?thesis
    proof (cases ws)
      case Nil
      then show ?thesis using Cons False sp by simp
    next
      case (Cons a list)
      then show ?thesis using Cons.IH False sp by simp
    qed
  qed
qed

lemma split_append_slash: "split (a @ CHR ''/'' # b) = split a @ split b"
proof (induction a)
  case Nil
  then show ?case by simp
next
  case (Cons c a)
  obtain w ws where sp: "split a = w # ws" by (cases "split a") auto
  show ?case using Cons sp by (auto split: list.splits)
qed

lemma join_append: "xs \<noteq> [] \<Longrightarrow> ys \<noteq> [] \<Longrightarrow> join (xs @ ys) = join xs @ CHR ''/'' # join ys"
proof (induction xs)
  case Nil
  then show ?case by simp
next
  case (Cons x xs)
  show ?case
  proof (cases xs)
    case Nil
    then show ?thesis using Cons.prems by (simp add: join_Cons)
  next
    case (Cons a list)
    then show ?thesis using Cons.IH Cons.prems by (simp add: join_Cons)
  qed
qed

lemma parent_path_decompose:
  assumes "parent_segments p \<noteq> []"
  shows "p = join (parent_segments p) @ CHR ''/'' # last (split p)"
proof -
  have "split p = parent_segments p @ [last (split p)]"
    by (simp add: parent_segments_def)
  then have "join (split p) = join (parent_segments p @ [last (split p)])" by simp
  also have "\<dots> = join (parent_segments p) @ CHR ''/'' # join [last (split p)]"
    using assms by (intro join_append) auto
  finally show ?thesis by (simp add: join_split)
qed

lemma parent_path_shorter:
  "parent_segments p \<noteq> [] \<Longrightarrow> length (join (parent_segments p)) < length p"
  using parent_path_decompose [of p] 
  by (metis length_append length_Cons less_add_Suc1 add_Suc_right)

lemma parent_segments_trailing_slash: "parent_segments (p @ ''/'') = split p"
  by (simp add: parent_segments_def split_append_slash)

lemma parent_path_trailing_slash:
  "parent_segments (p @ ''/'') \<noteq> [] \<and> join (parent_segments (p @ ''/'')) = p"
  by (simp add: parent_segments_trailing_slash join_split)

lemma parent_segments_empty [simp]: "parent_segments [] = []"
  by (simp add: parent_segments_def)

subsection \<open>The loop body as placement of an item\<close>

lemma make_entry_Origin: "make_entry fm (Origin e) = entry_of e"
  by (simp add: make_entry_def entry_of_def)

lemma entry_of_fields:
  "node_entryName fm (entry_of e) = entryName e"
  "node_isDirectory fm (entry_of e) = isDirectory e"
  "node_name fm (entry_of e) = name e"
  by (simp_all add: entry_of_def make_entry_def)

lemma entry_of_not_Ref [simp]: "entry_of e \<noteq> Ref k" "Ref k \<noteq> entry_of e"
  by (simp_all add: entry_of_def make_entry_def)

lemma loop_body_Origin: "loop_body bn (Origin e) st = place bn (origin_item e) st"
  by (cases "js_get (folderMap st) (parent_path (entryName e))")
     (simp_all add: loop_body_def place_def origin_item_def make_entry_Origin entry_of_fields
        has_parent_def parent_path_def add_child_def new_dir_def Let_def)

lemma loop_body_Ref:
  assumes "js_get (folderMap st) k = Some d" "dirIsDirectory d" "dirEntryName d = k"
  shows "loop_body bn (Ref k) st = place bn (ref_item k) st"
  using assms
  by (cases "js_get (folderMap st) (parent_path k)")
     (simp_all add: loop_body_def place_def ref_item_def make_entry_def
        has_parent_def parent_path_def add_child_def new_dir_def Let_def)

lemma parseFlatItems_Origin: "parseFlatItems bn (map Origin es) st = place_all bn (map origin_item es) st"
  by (induction es arbitrary: st) (simp_all add: loop_body_Origin split: sum.splits)

subsection \<open>What one placement does\<close>

lemma extend_Nil [simp]: "extend_dir bn k d [] = d"
  by (cases d) simp_all

lemma extend_extend: "extend_dir bn k (extend_dir bn k d a) b = extend_dir bn k d (a @ b)"
proof (cases d)
  case None
  then show ?thesis
    by (cases a; cases b) (simp_all add: new_dir_def)
next
  case (Some d')
  then show ?thesis by simp
qed

lemma extend_eq_None: "extend_dir bn k d cs = None \<longleftrightarrow> d = None \<and> cs = []"
  by (cases d; cases cs) simp_all

lemma js_get_add_child:
  "js_get (add_child bn q x fm) k = (if k = q then extend_dir bn q (js_get fm q) [x] else js_get fm k)"
  by (cases "js_get fm q") (simp_all add: add_child_def js_get_set js_get_store_update)

lemma set_js_keys_add_child: "set (js_keys (add_child bn q x fm)) = insert q (set (js_keys fm))"
  by (cases "js_get fm q")
     (auto simp: add_child_def set_js_keys_set js_keys_store_update dest: js_get_Some_keys)

lemma distinct_js_keys_add_child:
  "distinct (js_keys fm) \<Longrightarrow> distinct (js_keys (add_child bn q x fm))"
  by (cases "js_get fm q") (simp_all add: add_child_def distinct_js_keys_set js_keys_store_update)

lemma children_for_Nil [simp]: "children_for k [] = []"
  by (simp add: children_for_def)

lemma children_for_Cons:
  "children_for k ((p, x, isdir) # items) =
     (if has_parent p \<and> parent_path p = k then x # children_for k items else children_for k items)"
  by (simp add: children_for_def)

lemma children_for_append: "children_for k (xs @ ys) = children_for k xs @ children_for k ys"
  by (simp add: children_for_def)

lemma roots_of_Nil [simp]: "roots_of [] = []"
  by (simp add: roots_of_def)

lemma roots_of_Cons:
  "roots_of ((p, x, isdir) # items) = (if has_parent p then roots_of items else x # roots_of items)"
  by (simp add: roots_of_def)

lemma roots_of_append: "roots_of (xs @ ys) = roots_of xs @ roots_of ys"
  by (simp add: roots_of_def)

lemma place_folderMap:
  assumes "place bn (p, x, isdir) st = Inr st'"
  shows "js_get (folderMap st') k = extend_dir bn k (js_get (folderMap st) k) (children_for k [(p, x, isdir)])"
  using assms
  by (auto simp: place_def children_for_Cons js_get_add_child split: if_splits)

lemma place_files:
  assumes "place bn (p, x, isdir) st = Inr st'"
  shows "files st' = files st @ roots_of [(p, x, isdir)]"
  using assms by (auto simp: place_def roots_of_Cons split: if_splits)

lemma place_keys:
  assumes "place bn (p, x, isdir) st = Inr st'"
  shows "set (js_keys (folderMap st')) =
           set (js_keys (folderMap st)) \<union> (if has_parent p then {parent_path p} else {})"
  using assms by (auto simp: place_def set_js_keys_add_child split: if_splits)

lemma place_distinct:
  assumes "place bn item st = Inr st'" "distinct (js_keys (folderMap st))"
  shows "distinct (js_keys (folderMap st'))"
  using assms by (cases item) (auto simp: place_def distinct_js_keys_add_child split: if_splits)

lemma place_proto_free:
  assumes "place bn item st = Inr st'" "proto_free (folderMap st)"
  shows "proto_free (folderMap st')"
proof -
  obtain p x isdir where item: "item = (p, x, isdir)" by (cases item)
  show ?thesis
  proof (cases "has_parent p")
    case False
    then show ?thesis using assms by (auto simp: item place_def)
  next
    case True
    with assms have ok: "js_get (folderMap st) (parent_path p) \<noteq> None \<or> parent_path p \<notin> set object_prototype_names"
      and st': "set (js_keys (folderMap st')) = insert (parent_path p) (set (js_keys (folderMap st)))"
      by (auto simp: item place_def set_js_keys_add_child split: if_splits)
    from ok have "parent_path p \<in> set (js_keys (folderMap st)) \<or> parent_path p \<notin> set object_prototype_names"
      by (auto simp: js_get_None_keys)
    with assms(2) st' show ?thesis by (auto simp: proto_free_def)
  qed
qed

lemma place_throws:
  assumes "proto_free (folderMap st)"
  shows "place bn (p, x, isdir) st = Inl e \<longleftrightarrow>
           has_parent p \<and> parent_path p \<in> set object_prototype_names"
proof -
  have "parent_path p \<in> set object_prototype_names \<Longrightarrow> js_get (folderMap st) (parent_path p) = None"
    using assms by (auto simp: proto_free_def js_get_None_keys)
  then show ?thesis by (cases e) (auto simp: place_def)
qed

lemma place_dirs_ok:
  assumes "place bn item st = Inr st'" "dirs_ok bn (folderMap st)"
  shows "dirs_ok bn (folderMap st')"
proof -
  obtain p x isdir where item: "item = (p, x, isdir)" by (cases item)
  show ?thesis
    unfolding dirs_ok_def
  proof (intro allI impI)
    fix k d assume kd: "js_get (folderMap st') k = Some d"
    have "extend_dir bn k (js_get (folderMap st) k) (children_for k [(p, x, isdir)]) = Some d"
      using place_folderMap [OF assms(1) [unfolded item]] kd by simp
    then show "dirIsDirectory d \<and> dirEntryName d = k \<and> dirName d = bn k"
      using assms(2)
      by (cases "js_get (folderMap st) k"; cases "children_for k [(p, x, isdir)]")
         (auto simp: dirs_ok_def new_dir_def)
  qed
qed

subsection \<open>What a pass does\<close>

lemma place_all_folderMap:
  "place_all bn items st = Inr st' \<Longrightarrow>
     js_get (folderMap st') k = extend_dir bn k (js_get (folderMap st) k) (children_for k items)"
proof (induction items arbitrary: st)
  case Nil
  then show ?case by simp
next
  case (Cons item items)
  obtain p x isdir where item: "item = (p, x, isdir)" by (cases item)
  from Cons.prems obtain st1 where 1: "place bn (p, x, isdir) st = Inr st1"
    and 2: "place_all bn items st1 = Inr st'"
    by (auto simp: item split: sum.splits)
  have "js_get (folderMap st') k = extend_dir bn k (js_get (folderMap st1) k) (children_for k items)"
    by (rule Cons.IH [OF 2])
  also have "js_get (folderMap st1) k = extend_dir bn k (js_get (folderMap st) k) (children_for k [(p, x, isdir)])"
    by (rule place_folderMap [OF 1])
  finally show ?case
    using children_for_append [of k "[(p, x, isdir)]" items]
    by (simp add: extend_extend item)
qed

lemma place_all_files:
  "place_all bn items st = Inr st' \<Longrightarrow> files st' = files st @ roots_of items"
proof (induction items arbitrary: st)
  case Nil
  then show ?case by simp
next
  case (Cons item items)
  obtain p x isdir where item: "item = (p, x, isdir)" by (cases item)
  from Cons.prems obtain st1 where 1: "place bn (p, x, isdir) st = Inr st1"
    and 2: "place_all bn items st1 = Inr st'"
    by (auto simp: item split: sum.splits)
  show ?case
    using Cons.IH [OF 2] place_files [OF 1] roots_of_append [of "[(p, x, isdir)]" items]
    by (simp add: item)
qed

lemma place_all_keys:
  "place_all bn items st = Inr st' \<Longrightarrow>
     set (js_keys (folderMap st')) =
       set (js_keys (folderMap st)) \<union> {parent_path p |p x isdir. (p, x, isdir) \<in> set items \<and> has_parent p}"
proof (induction items arbitrary: st)
  case Nil
  then show ?case by simp
next
  case (Cons item items)
  obtain p x isdir where item: "item = (p, x, isdir)" by (cases item)
  from Cons.prems obtain st1 where 1: "place bn (p, x, isdir) st = Inr st1"
    and 2: "place_all bn items st1 = Inr st'"
    by (auto simp: item split: sum.splits)
  show ?case
    unfolding Cons.IH [OF 2] place_keys [OF 1] item by auto
qed

lemma place_all_distinct:
  "place_all bn items st = Inr st' \<Longrightarrow> distinct (js_keys (folderMap st)) \<Longrightarrow>
     distinct (js_keys (folderMap st'))"
  by (induction items arbitrary: st) (auto split: sum.splits dest: place_distinct)

lemma place_all_proto_free:
  "place_all bn items st = Inr st' \<Longrightarrow> proto_free (folderMap st) \<Longrightarrow> proto_free (folderMap st')"
  by (induction items arbitrary: st) (auto split: sum.splits dest: place_proto_free)

lemma place_all_dirs_ok:
  "place_all bn items st = Inr st' \<Longrightarrow> dirs_ok bn (folderMap st) \<Longrightarrow> dirs_ok bn (folderMap st')"
  by (induction items arbitrary: st) (auto split: sum.splits dest: place_dirs_ok)

lemma place_all_throws:
  "proto_free (folderMap st) \<Longrightarrow>
     (\<exists>e. place_all bn items st = Inl e) \<longleftrightarrow>
       (\<exists>p x isdir. (p, x, isdir) \<in> set items \<and> has_parent p \<and> parent_path p \<in> set object_prototype_names)"
proof (induction items arbitrary: st)
  case Nil
  then show ?case by simp
next
  case (Cons item items)
  obtain p x isdir where item: "item = (p, x, isdir)" by (cases item)
  show ?case
  proof (cases "place bn (p, x, isdir) st")
    case (Inl e)
    then show ?thesis
      using place_throws [OF Cons.prems, of bn p x isdir e] by (auto simp: item)
  next
    case (Inr st1)
    have no: "\<not> (has_parent p \<and> parent_path p \<in> set object_prototype_names)"
      using place_throws [OF Cons.prems, of bn p x isdir TypeError] Inr by auto
    have "proto_free (folderMap st1)"
      using place_proto_free [OF Inr Cons.prems] .
    from Cons.IH [OF this] no show ?thesis
      by (auto simp: item Inr)
  qed
qed

subsection \<open>The two passes\<close>

lemma parseFlatItems_Ref:
  "dirs_ok bn (folderMap st) \<Longrightarrow> set ks \<subseteq> set (js_keys (folderMap st)) \<Longrightarrow>
     parseFlatItems bn (map Ref ks) st = place_all bn (map ref_item ks) st"
proof (induction ks arbitrary: st)
  case Nil
  then show ?case by simp
next
  case (Cons k ks)
  from Cons.prems(2) obtain d where d: "js_get (folderMap st) k = Some d"
    by (cases "js_get (folderMap st) k") (auto simp: js_get_None_keys)
  with Cons.prems(1) have "dirIsDirectory d" "dirEntryName d = k"
    by (auto simp: dirs_ok_def)
  then have step: "loop_body bn (Ref k) st = place bn (ref_item k) st"
    using d by (intro loop_body_Ref)
  show ?case
  proof (cases "place bn (ref_item k) st")
    case (Inl e)
    then show ?thesis by (simp add: step)
  next
    case (Inr st1)
    have ok: "dirs_ok bn (folderMap st1)"
      using place_dirs_ok [OF Inr Cons.prems(1)] .
    have "set (js_keys (folderMap st)) \<subseteq> set (js_keys (folderMap st1))"
      using place_keys [OF Inr [unfolded ref_item_def]] by auto
    with Cons.prems(2) have "set ks \<subseteq> set (js_keys (folderMap st1))" by auto
    from Cons.IH [OF ok this] show ?thesis by (simp add: step Inr)
  qed
qed

lemma empty_state_facts:
  "dirs_ok bn (folderMap empty_state)" "proto_free (folderMap empty_state)"
  "distinct (js_keys (folderMap empty_state))" "js_get (folderMap empty_state) k = None"
  "files empty_state = []" "js_keys (folderMap empty_state) = []" "fileMap empty_state = []"
  by (simp_all add: empty_state_def dirs_ok_def proto_free_def js_get_def)

lemma build_passes:
  "build bn es =
     (case place_all bn (map origin_item es) empty_state of
        Inl e \<Rightarrow> Inl e
      | Inr st1 \<Rightarrow> place_all bn (map ref_item (js_keys (folderMap st1))) st1)"
proof (cases "place_all bn (map origin_item es) empty_state")
  case (Inl e)
  then show ?thesis
    by (simp add: build_def parseFlatItems_Origin empty_state_def)
next
  case (Inr st1)
  have "dirs_ok bn (folderMap st1)"
    using place_all_dirs_ok [OF Inr] by (simp add: empty_state_facts)
  then have "parseFlatItems bn (map Ref (js_keys (folderMap st1))) st1 =
               place_all bn (map ref_item (js_keys (folderMap st1))) st1"
    by (intro parseFlatItems_Ref) auto
  then show ?thesis
    using Inr by (simp add: build_def parseFlatItems_Origin empty_state_def)
qed

lemma build_InrE:
  assumes "build bn es = Inr st"
  obtains st1 where "place_all bn (map origin_item es) empty_state = Inr st1"
    and "place_all bn (map ref_item (js_keys (folderMap st1))) st1 = Inr st"
  using assms by (auto simp: build_passes split: sum.splits)

text \<open>The paths of the directories that the first pass registers.\<close>

lemma first_pass_keys:
  assumes "place_all bn (map origin_item es) empty_state = Inr st1"
  shows "set (js_keys (folderMap st1)) =
           {parent_path (entryName e) |e. e \<in> set es \<and> has_parent (entryName e)}"
  using place_all_keys [OF assms] by (auto simp: empty_state_facts origin_item_def)

lemma extend_extend_None:
  "extend_dir bn k (extend_dir bn k None a) b = extend_dir bn k None (a @ b)"
  by (rule extend_extend)

lemma build_folderMap:
  assumes "build bn es = Inr st"
  obtains ks where "distinct ks"
    and "set ks = {parent_path (entryName e) |e. e \<in> set es \<and> has_parent (entryName e)}"
    and "\<And>k. js_get (folderMap st) k =
            extend_dir bn k None (children_for k (map origin_item es) @ children_for k (map ref_item ks))"
    and "files st = roots_of (map origin_item es) @ roots_of (map ref_item ks)"
    and "set ks \<subseteq> set (js_keys (folderMap st))"
proof -
  from assms obtain st1 where 1: "place_all bn (map origin_item es) empty_state = Inr st1"
    and 2: "place_all bn (map ref_item (js_keys (folderMap st1))) st1 = Inr st"
    by (rule build_InrE)
  let ?ks = "js_keys (folderMap st1)"
  have a: "distinct ?ks"
    using place_all_distinct [OF 1] by (simp add: empty_state_facts)
  have b: "set ?ks = {parent_path (entryName e) |e. e \<in> set es \<and> has_parent (entryName e)}"
    by (rule first_pass_keys [OF 1])
  have c: "js_get (folderMap st) k =
            extend_dir bn k None (children_for k (map origin_item es) @ children_for k (map ref_item ?ks))" for k
    using place_all_folderMap [OF 2, of k] place_all_folderMap [OF 1, of k]
    by (simp add: empty_state_facts extend_extend)
  have d: "files st = roots_of (map origin_item es) @ roots_of (map ref_item ?ks)"
    using place_all_files [OF 2] place_all_files [OF 1] by (simp add: empty_state_facts)
  have e: "set ?ks \<subseteq> set (js_keys (folderMap st))"
    using place_all_keys [OF 2] by auto
  from a b c d e show ?thesis by (rule that)
qed

lemma build_distinct: "build bn es = Inr st \<Longrightarrow> distinct (js_keys (folderMap st))"
  by (erule build_InrE) (auto dest!: place_all_distinct simp: empty_state_facts)

lemma build_dirs_ok: "build bn es = Inr st \<Longrightarrow> dirs_ok bn (folderMap st)"
  by (erule build_InrE) (auto dest!: place_all_dirs_ok simp: empty_state_facts)

lemma build_proto_free: "build bn es = Inr st \<Longrightarrow> proto_free (folderMap st)"
  by (erule build_InrE) (auto dest!: place_all_proto_free simp: empty_state_facts)

lemma children_for_origin_no_Ref: "Ref k' \<notin> set (children_for k (map origin_item es))"
  by (induction es) (auto simp: origin_item_def children_for_Cons)

lemma children_for_ref_item:
  "x \<in> set (children_for k (map ref_item ks)) \<longleftrightarrow>
     (\<exists>k'. x = Ref k' \<and> k' \<in> set ks \<and> has_parent k' \<and> parent_path k' = k)"
  by (induction ks) (auto simp: ref_item_def children_for_Cons)

lemma extend_None_children:
  "extend_dir bn k None cs = Some d \<Longrightarrow> children d = cs"
  by (cases cs) (auto simp: new_dir_def)

lemma build_refs_closed:
  assumes "build bn es = Inr st"
  shows "refs_closed (folderMap st)"
proof -
  from assms obtain ks where "distinct ks"
    and "set ks = {parent_path (entryName e) |e. e \<in> set es \<and> has_parent (entryName e)}"
    and get: "\<And>k. js_get (folderMap st) k =
            extend_dir bn k None (children_for k (map origin_item es) @ children_for k (map ref_item ks))"
    and "files st = roots_of (map origin_item es) @ roots_of (map ref_item ks)"
    and sub: "set ks \<subseteq> set (js_keys (folderMap st))"
    by (rule build_folderMap) blast
  show ?thesis
    unfolding refs_closed_def
  proof (intro allI impI, elim conjE)
    fix k d k'
    assume d: "js_get (folderMap st) k = Some d" and r: "Ref k' \<in> set (children d)"
    have "children d = children_for k (map origin_item es) @ children_for k (map ref_item ks)"
      using d get [of k] by (simp add: extend_None_children)
    with r have "Ref k' \<in> set (children_for k (map ref_item ks))"
      by (simp add: children_for_origin_no_Ref)
    then have k': "k' \<in> set ks" "has_parent k'" "parent_path k' = k"
      by (auto simp: children_for_ref_item)
    have "length (parent_path k') < length k'"
      using k'(2) by (simp add: parent_path_def has_parent_def parent_path_shorter)
    with k' sub show "k' \<in> set (js_keys (folderMap st)) \<and> length k < length k'" by auto
  qed
qed

subsection \<open>Sorting\<close>

lemma mset_insert_sorted: "mset (insert_sorted cmp x ys) = add_mset x (mset ys)"
  by (induction ys) auto

lemma mset_array_sort: "mset (array_sort cmp xs) = mset xs"
  by (induction xs) (simp_all add: array_sort_def mset_insert_sorted)

lemma set_array_sort: "set (array_sort cmp xs) = set xs"
  using mset_array_sort [of cmp xs] by (metis set_mset_mset)

lemma array_sort_Cons: "array_sort cmp (x # xs) = insert_sorted cmp x (array_sort cmp xs)"
  by (simp add: array_sort_def)

lemma array_sort_Nil [simp]: "array_sort cmp [] = []"
  by (simp add: array_sort_def)

lemma set_insert_sorted: "set (insert_sorted cmp x ys) = insert x (set ys)"
  by (induction ys) auto

lemma sorted_insert_sorted:
  assumes "total_preorder cmp" "sorted_wrt (\<lambda>a b. cmp a b \<le> 0) ys"
  shows "sorted_wrt (\<lambda>a b. cmp a b \<le> 0) (insert_sorted cmp x ys)"
  using assms(2)
proof (induction ys)
  case Nil
  then show ?case by simp
next
  case (Cons y ys)
  have tot: "\<And>a b. cmp a b \<le> 0 \<or> cmp b a \<le> 0"
    and tr: "\<And>a b c. cmp a b \<le> 0 \<Longrightarrow> cmp b c \<le> 0 \<Longrightarrow> cmp a c \<le> 0"
    using assms(1) unfolding total_preorder_def by blast+
  show ?case
  proof (cases "cmp x y \<le> 0")
    case True
    then have "\<forall>z \<in> set ys. cmp x z \<le> 0"
      using Cons.prems tr by auto
    with True Cons.prems show ?thesis by simp
  next
    case False
    then have yx: "cmp y x \<le> 0" using tot [of x y] by simp
    have "sorted_wrt (\<lambda>a b. cmp a b \<le> 0) (insert_sorted cmp x ys)"
      using Cons by simp
    moreover have "\<forall>z \<in> set (insert_sorted cmp x ys). cmp y z \<le> 0"
      using Cons.prems yx by (auto simp: set_insert_sorted)
    ultimately show ?thesis using False by simp
  qed
qed

lemma sorted_array_sort:
  "total_preorder cmp \<Longrightarrow> sorted_wrt (\<lambda>a b. cmp a b \<le> 0) (array_sort cmp xs)"
  by (induction xs) (simp_all add: array_sort_Cons sorted_insert_sorted)

lemma insert_sorted_front:
  "\<forall>y \<in> set ys. cmp x y \<le> 0 \<Longrightarrow> insert_sorted cmp x ys = x # ys"
  by (cases ys) simp_all

lemma array_sort_sorted:
  "sorted_wrt (\<lambda>a b. cmp a b \<le> 0) xs \<Longrightarrow> array_sort cmp xs = xs"
  by (induction xs) (simp_all add: array_sort_Cons insert_sorted_front)

lemma array_sort_idem:
  "total_preorder cmp \<Longrightarrow> array_sort cmp (array_sort cmp xs) = array_sort cmp xs"
  by (simp add: array_sort_sorted sorted_array_sort)

lemma total_preorder_sortFiles:
  assumes "total_preorder lc"
  shows "total_preorder (sortFiles lc fm)"
proof -
  have tot: "\<And>a b. lc a b \<le> 0 \<or> lc b a \<le> 0"
    and tr: "\<And>a b c. lc a b \<le> 0 \<Longrightarrow> lc b c \<le> 0 \<Longrightarrow> lc a c \<le> 0"
    using assms unfolding total_preorder_def by blast+
  show ?thesis
    unfolding total_preorder_def
  proof (intro conjI allI impI)
    fix a b show "sortFiles lc fm a b \<le> 0 \<or> sortFiles lc fm b a \<le> 0"
      using tot [of "node_name fm a" "node_name fm b"] by (auto simp: sortFiles_def)
  next
    fix a b c assume "sortFiles lc fm a b \<le> 0 \<and> sortFiles lc fm b c \<le> 0"
    then show "sortFiles lc fm a c \<le> 0"
      using tr [of "node_name fm a" "node_name fm b" "node_name fm c"]
      by (auto simp: sortFiles_def split: if_splits)
  qed
qed

lemma sortFiles_sorted_ordered:
  assumes "sorted_wrt (\<lambda>a b. sortFiles lc fm a b \<le> 0) xs"
  shows "ordered lc fm xs"
  unfolding ordered_def
proof
  show "sorted_wrt (\<lambda>a b. \<not> (\<not> node_isDirectory fm a \<and> node_isDirectory fm b)) xs"
    by (rule sorted_wrt_mono_rel [OF _ assms]) (auto simp: sortFiles_def split: if_splits)
  show "sorted_wrt (\<lambda>a b. node_isDirectory fm a = node_isDirectory fm b \<longrightarrow>
                        lc (node_name fm a) (node_name fm b) \<le> 0) xs"
    by (rule sorted_wrt_mono_rel [OF _ assms]) (auto simp: sortFiles_def split: if_splits)
qed

lemma ordered_array_sort:
  "total_preorder lc \<Longrightarrow> ordered lc fm (array_sort (sortFiles lc fm) xs)"
  by (intro sortFiles_sorted_ordered sorted_array_sort total_preorder_sortFiles)

subsection \<open>The recursive sum\<close>

lemma sum_js_Nil [simp]: "sum_js fm [] p res = Some res"
  by (subst sum_js.simps) simp

lemma sum_js_Cons:
  "sum_js fm (x # rest) p res =
     (case node_children fm x of
        None \<Rightarrow> sum_js fm rest p (res + own_size p x)
      | Some cs \<Rightarrow> Option.bind (sum_js fm cs p 0) (\<lambda>c. sum_js fm rest p (res + own_size p x + c)))"
  by (subst sum_js.simps) (simp add: own_size_def Let_def split: option.splits)

lemma covered_leaf: "node_children fm x = None \<Longrightarrow> covered n fm x"
  by (cases n) simp_all

lemma files_below_leaf:
  "node_children fm x = None \<Longrightarrow> sum_list (map (own_size p) (files_below n fm x)) = own_size p x"
  by (cases x; cases n) (simp_all add: own_size_def)

lemma own_size_Ref [simp]: "own_size p (Ref k) = 0"
  by (simp add: own_size_def)

lemma sum_js_total:
  "\<forall>x \<in> set xs. covered n fm x \<Longrightarrow>
     sum_js fm xs p res = Some (res + sum_list (map (own_size p) (concat (map (files_below n fm) xs))))"
proof (induction n arbitrary: xs res)
  case 0
  then show ?case
  proof (induction xs arbitrary: res)
    case Nil
    then show ?case by simp
  next
    case (Cons x xs)
    then have leaf: "node_children fm x = None" by simp
    show ?case
      using Cons.IH [of "res + own_size p x"] Cons.prems files_below_leaf [OF leaf, of p 0]
      by (simp add: sum_js_Cons leaf)
  qed
next
  case (Suc n)
  note outer = Suc.IH
  from Suc.prems show ?case
  proof (induction xs arbitrary: res)
    case Nil
    then show ?case by simp
  next
    case (Cons x xs)
    show ?case
    proof (cases "node_children fm x")
      case None
      show ?thesis
        using Cons.IH [of "res + own_size p x"] Cons.prems files_below_leaf [OF None, of p "Suc n"]
        by (simp add: sum_js_Cons None)
    next
      case (Some cs)
      then obtain k d where x: "x = Ref k" and d: "js_get fm k = Some d" and cs: "cs = children d"
        by (cases x) auto
      have "\<forall>c \<in> set cs. covered n fm c"
        using Cons.prems Some by simp
      then have "sum_js fm cs p 0 =
          Some (0 + sum_list (map (own_size p) (concat (map (files_below n fm) cs))))"
        by (rule outer)
      then have inner: "sum_js fm (children d) p 0 =
          Some (sum_list (map (own_size p) (concat (map (files_below n fm) (children d)))))"
        by (simp add: cs)
      have rest: "sum_js fm xs p r =
          Some (r + sum_list (map (own_size p) (concat (map (files_below (Suc n) fm) xs))))" for r
        using Cons.IH [of r] Cons.prems by simp
      show ?thesis
        by (simp add: sum_js_Cons Some inner rest x d cs)
    qed
  qed
qed

lemma covered_mono: "covered n fm x \<Longrightarrow> covered (Suc n) fm x"
proof (induction n arbitrary: x)
  case 0
  then show ?case by simp
next
  case (Suc n)
  then show ?case by (cases "node_children fm x") auto
qed

lemma files_below_stable:
  "covered n fm x \<Longrightarrow> files_below (n + j) fm x = files_below n fm x"
proof (induction n arbitrary: x)
  case 0
  then show ?case by (cases x; cases j) (auto split: option.splits)
next
  case (Suc n)
  show ?case
  proof (cases x)
    case (Ref k)
    show ?thesis
    proof (cases "js_get fm k")
      case None
      then show ?thesis by (simp add: Ref)
    next
      case (Some d)
      then have "\<forall>c \<in> set (children d). covered n fm c"
        using Suc.prems by (simp add: Ref)
      then have "map (files_below (n + j) fm) (children d) = map (files_below n fm) (children d)"
        using Suc.IH by (intro map_cong) auto
      then have "concat (map (files_below (n + j) fm) (children d)) =
                 concat (map (files_below n fm) (children d))"
        by (rule arg_cong)
      then show ?thesis by (simp add: Ref Some)
    qed
  qed simp_all
qed

lemma length_less_depth_bound: "k \<in> set (js_keys fm) \<Longrightarrow> length k < depth_bound fm"
proof -
  have "k \<in> set ks \<Longrightarrow> length k \<le> foldr max (map length ks) 0" for ks :: "string list"
    by (induction ks) auto
  then show "k \<in> set (js_keys fm) \<Longrightarrow> length k < depth_bound fm"
    by (fastforce simp: depth_bound_def)
qed

lemma covered_by_length:
  assumes "refs_closed fm"
  shows "depth_bound fm \<le> length k + n \<Longrightarrow> covered n fm (Ref k)"
proof (induction n arbitrary: k)
  case 0
  then have "k \<notin> set (js_keys fm)"
    using length_less_depth_bound [of k fm] by auto
  then show ?case by (simp add: js_get_None_keys [symmetric])
next
  case (Suc n)
  show ?case
  proof (cases "js_get fm k")
    case None
    then show ?thesis by simp
  next
    case (Some d)
    have "covered n fm c" if c: "c \<in> set (children d)" for c
    proof (cases c)
      case (Ref k')
      with assms Some c have "length k < length k'"
        unfolding refs_closed_def by blast
      with Suc.prems have "depth_bound fm \<le> length k' + n" by simp
      then show ?thesis using Suc.IH Ref by simp
    qed (simp_all add: covered_leaf)
    then show ?thesis by (simp add: Some)
  qed
qed

lemma covered_depth_bound: "refs_closed fm \<Longrightarrow> covered (depth_bound fm) fm x"
  by (cases x) (simp_all add: covered_leaf covered_by_length)

lemma reachable_files_stable:
  "refs_closed fm \<Longrightarrow> depth_bound fm \<le> n \<Longrightarrow> files_below n fm x = reachable_files fm x"
  using files_below_stable [OF covered_depth_bound, where fm = fm and x = x and j = "n - depth_bound fm"]
  by (simp add: reachable_files_def)

lemma sum_js_total_size:
  "refs_closed fm \<Longrightarrow> sum_js fm xs p 0 = Some (total_size p fm xs)"
  using sum_js_total [where xs = xs and n = "depth_bound fm" and fm = fm and p = p and res = 0]
  by (simp add: covered_depth_bound total_size_def reachable_files_def [abs_def])

subsection \<open>Stores of the same shape\<close>

lemma same_shape_refl: "same_shape fm fm"
  by (simp add: same_shape_def)

lemma same_shape_SomeD:
  "same_shape fm fm' \<Longrightarrow> js_get fm k = Some d \<Longrightarrow>
     \<exists>d'. js_get fm' k = Some d' \<and> mset (children d') = mset (children d) \<and>
          dirIsDirectory d' = dirIsDirectory d \<and> dirName d' = dirName d"
  by (simp add: same_shape_def)

lemma same_shape_sym:
  assumes "same_shape fm fm'"
  shows "same_shape fm' fm"
  unfolding same_shape_def
proof (intro conjI allI impI)
  show "set (js_keys fm) = set (js_keys fm')" using assms by (simp add: same_shape_def)
next
  fix k d' assume d': "js_get fm' k = Some d'"
  then have "k \<in> set (js_keys fm)"
    using assms by (auto simp: same_shape_def dest: js_get_Some_keys)
  then obtain d where d: "js_get fm k = Some d"
    by (cases "js_get fm k") (auto simp: js_get_None_keys)
  from same_shape_SomeD [OF assms d] obtain d'' where "js_get fm' k = Some d''"
    "mset (children d'') = mset (children d)" "dirIsDirectory d'' = dirIsDirectory d"
    "dirName d'' = dirName d" by blast
  with d d' show "\<exists>d. js_get fm k = Some d \<and> mset (children d) = mset (children d') \<and>
      dirIsDirectory d = dirIsDirectory d' \<and> dirName d = dirName d'"
    by simp
qed

lemma same_shape_trans:
  assumes "same_shape a b" "same_shape b c"
  shows "same_shape a c"
  unfolding same_shape_def
proof (intro conjI allI impI)
  show "set (js_keys c) = set (js_keys a)"
    using assms by (simp add: same_shape_def)
next
  fix k d assume "js_get a k = Some d"
  with assms(1) obtain d' where d': "js_get b k = Some d'" "mset (children d') = mset (children d)"
    "dirIsDirectory d' = dirIsDirectory d" "dirName d' = dirName d"
    unfolding same_shape_def by blast
  from assms(2) d'(1) obtain d'' where "js_get c k = Some d''" "mset (children d'') = mset (children d')"
    "dirIsDirectory d'' = dirIsDirectory d'" "dirName d'' = dirName d'"
    unfolding same_shape_def by blast
  with d' show "\<exists>d'. js_get c k = Some d' \<and> mset (children d') = mset (children d) \<and>
      dirIsDirectory d' = dirIsDirectory d \<and> dirName d' = dirName d"
    by simp
qed

lemma key_in_set: "(k, v) \<in> set fm \<Longrightarrow> k \<in> set (js_keys fm)"
  by (force simp: set_js_keys)

lemma same_shape_None: "same_shape fm fm' \<Longrightarrow> js_get fm' k = None \<longleftrightarrow> js_get fm k = None"
  by (simp add: same_shape_def js_get_None_keys)

lemma js_get_map_values: "js_get (map (\<lambda>(k, d). (k, f k d)) fm) k = map_option (f k) (js_get fm k)"
  by (induction fm) (auto simp: js_get_def)

lemma js_keys_map_values: "js_keys (map (\<lambda>(k, d). (k, f k d)) fm) = js_keys fm"
  by (induction fm) auto

lemma same_shape_map_values:
  assumes "\<And>k d. mset (children (f k d)) = mset (children d) \<and>
              dirIsDirectory (f k d) = dirIsDirectory d \<and> dirName (f k d) = dirName d"
  shows "same_shape fm (map (\<lambda>(k, d). (k, f k d)) fm)"
  using assms by (simp add: same_shape_def js_get_map_values js_keys_map_values)

lemma store_update_as_map:
  "store_update k f fm = map (\<lambda>(k', d). (k', (if k' = k then f d else d))) fm"
  by (induction fm) (auto simp: store_update_def)

lemma same_shape_store_update:
  assumes "\<And>d. mset (children (f d)) = mset (children d) \<and>
              dirIsDirectory (f d) = dirIsDirectory d \<and> dirName (f d) = dirName d"
  shows "same_shape fm (store_update k f fm)"
  unfolding store_update_as_map
  by (rule same_shape_map_values) (simp add: assms)

lemma same_shape_node_children:
  assumes "same_shape fm fm'"
  shows "rel_option (\<lambda>cs cs'. mset cs' = mset cs) (node_children fm x) (node_children fm' x)"
proof (cases x)
  case (Ref k)
  show ?thesis
  proof (cases "js_get fm k")
    case None
    then show ?thesis using same_shape_None [OF assms, of k] by (simp add: Ref)
  next
    case (Some d)
    from same_shape_SomeD [OF assms Some] obtain d' where
      "js_get fm' k = Some d'" "mset (children d') = mset (children d)" by blast
    then show ?thesis using Some by (simp add: Ref)
  qed
qed simp_all

lemma same_shape_covered:
  assumes "same_shape fm fm'"
  shows "covered n fm' x = covered n fm x"
proof (induction n arbitrary: x)
  case 0
  show ?case
    using same_shape_node_children [OF assms, of x]
    by (cases "node_children fm x"; cases "node_children fm' x") simp_all
next
  case (Suc n)
  show ?case
  proof (cases "node_children fm x")
    case None
    then show ?thesis
      using same_shape_node_children [OF assms, of x]
      by (cases "node_children fm' x") simp_all
  next
    case (Some cs)
    then obtain cs' where cs': "node_children fm' x = Some cs'" "mset cs' = mset cs"
      using same_shape_node_children [OF assms, of x]
      by (cases "node_children fm' x") simp_all
    then have "set cs' = set cs" by (metis set_mset_mset)
    then show ?thesis by (simp add: Some cs' Suc)
  qed
qed

lemma mset_concat_map:
  "mset (concat (map f xs)) = (\<Sum>x \<in># mset xs. mset (f x))"
  by (induction xs) simp_all

lemma same_shape_files_below:
  assumes "same_shape fm fm'"
  shows "mset (files_below n fm' x) = mset (files_below n fm x)"
proof (induction n arbitrary: x)
  case 0
  then show ?case by (cases x) simp_all
next
  case (Suc n)
  show ?case
  proof (cases x)
    case (Ref k)
    show ?thesis
    proof (cases "js_get fm k")
      case None
      then show ?thesis using same_shape_None [OF assms, of k] by (simp add: Ref)
    next
      case (Some d)
      from same_shape_SomeD [OF assms Some] obtain d' where
        d': "js_get fm' k = Some d'" "mset (children d') = mset (children d)" by blast
      have "mset (concat (map (files_below n fm') (children d'))) =
            (\<Sum>x \<in># mset (children d'). mset (files_below n fm' x))"
        by (rule mset_concat_map)
      also have "\<dots> = (\<Sum>x \<in># mset (children d). mset (files_below n fm x))"
        by (simp add: d' Suc)
      also have "\<dots> = mset (concat (map (files_below n fm) (children d)))"
        by (rule mset_concat_map [symmetric])
      finally show ?thesis by (simp add: Ref Some d')
    qed
  qed simp_all
qed

lemma foldr_max_le:
  "foldr max (map length ks) 0 \<le> n \<longleftrightarrow> (\<forall>k \<in> set ks. length k \<le> n)" for ks :: "string list"
  by (induction ks) auto

lemma foldr_max_set:
  fixes ks ks' :: "string list"
  assumes "set ks = set ks'"
  shows "foldr max (map length ks) 0 = foldr max (map length ks') 0"
proof -
  have "foldr max (map length ks) 0 \<le> n \<longleftrightarrow> foldr max (map length ks') 0 \<le> n" for n
    unfolding foldr_max_le using assms by simp
  then show ?thesis
    by (metis order_refl antisym)
qed

lemma same_shape_depth_bound: "same_shape fm fm' \<Longrightarrow> depth_bound fm' = depth_bound fm"
  using foldr_max_set [of "js_keys fm'" "js_keys fm"]
  by (simp add: same_shape_def depth_bound_def)

lemma sum_list_own_size_mset:
  "mset xs = mset ys \<Longrightarrow> sum_list (map (own_size p) xs) = sum_list (map (own_size p) ys)"
  by (metis mset_map sum_mset_sum_list)

lemma same_shape_total_size:
  assumes "same_shape fm fm'" "mset xs' = mset xs"
  shows "total_size p fm' xs' = total_size p fm xs"
proof -
  have "mset (concat (map (reachable_files fm') xs')) =
        (\<Sum>x \<in># mset xs'. mset (reachable_files fm' x))"
    by (rule mset_concat_map)
  also have "\<dots> = (\<Sum>x \<in># mset xs. mset (reachable_files fm x))"
    using assms
    by (simp add: reachable_files_def same_shape_depth_bound same_shape_files_below)
  also have "\<dots> = mset (concat (map (reachable_files fm) xs))"
    by (rule mset_concat_map [symmetric])
  finally show ?thesis
    unfolding total_size_def by (rule sum_list_own_size_mset)
qed

lemma same_shape_node_fields:
  assumes "same_shape fm fm'"
  shows "node_isDirectory fm' x = node_isDirectory fm x" "node_name fm' x = node_name fm x"
proof -
  have "node_isDirectory fm' x = node_isDirectory fm x \<and> node_name fm' x = node_name fm x"
  proof (cases x)
    case (Ref k)
    show ?thesis
    proof (cases "js_get fm k")
      case None
      then show ?thesis using same_shape_None [OF assms, of k] by (simp add: Ref)
    next
      case (Some d)
      from same_shape_SomeD [OF assms Some] obtain d' where
        "js_get fm' k = Some d'" "dirIsDirectory d' = dirIsDirectory d" "dirName d' = dirName d"
        by blast
      then show ?thesis using Some by (simp add: Ref)
    qed
  qed simp_all
  then show "node_isDirectory fm' x = node_isDirectory fm x" "node_name fm' x = node_name fm x"
    by simp_all
qed

lemma same_shape_sortFiles: "same_shape fm fm' \<Longrightarrow> sortFiles lc fm' = sortFiles lc fm"
  by (intro ext) (simp add: sortFiles_def same_shape_node_fields)

lemma same_shape_refs_closed:
  assumes "same_shape fm fm'" "refs_closed fm"
  shows "refs_closed fm'"
  unfolding refs_closed_def
proof (intro allI impI, elim conjE)
  fix k d' k' assume d': "js_get fm' k = Some d'" and r: "Ref k' \<in> set (children d')"
  from same_shape_SomeD [OF same_shape_sym [OF assms(1)] d'] obtain d where
    d: "js_get fm k = Some d" "mset (children d) = mset (children d')"
    by blast
  then have "set (children d) = set (children d')" by (metis set_mset_mset)
  with r d assms(2) have "k' \<in> set (js_keys fm) \<and> length k < length k'"
    unfolding refs_closed_def by blast
  then show "k' \<in> set (js_keys fm') \<and> length k < length k'"
    using assms(1) by (simp add: same_shape_def)
qed

lemma same_shape_finalized: "same_shape fm fm' \<Longrightarrow> finalized lc fm' d = finalized lc fm d"
  by (simp add: finalized_def same_shape_sortFiles same_shape_total_size)

lemma finalized_fields:
  "mset (children (finalized lc fm d)) = mset (children d)"
  "dirIsDirectory (finalized lc fm d) = dirIsDirectory d"
  "dirName (finalized lc fm d) = dirName d"
  "dirEntryName (finalized lc fm d) = dirEntryName d"
  by (simp_all add: finalized_def mset_array_sort)

subsection \<open>The loop over the directories\<close>

lemma store_update_twice: "store_update k g (store_update k f fm) = store_update k (g \<circ> f) fm"
  by (induction fm) (auto simp: store_update_def)

lemma store_update_cong:
  "(\<And>v. (k, v) \<in> set fm \<Longrightarrow> f v = g v) \<Longrightarrow> store_update k f fm = store_update k g fm"
  by (induction fm) (auto simp: store_update_def)

lemma finalize_dirs_step:
  assumes d: "js_get fm k = Some d" and dist: "distinct (js_keys fm)" and closed: "refs_closed fm"
  shows "finalize_dirs lc (k # ks) fm = finalize_dirs lc ks (store_update k (\<lambda>_. finalized lc fm d) fm)"
proof -
  let ?sorted = "array_sort (sortFiles lc fm) (children d)"
  let ?f1 = "\<lambda>d'. d' \<lparr> children := ?sorted \<rparr>"
  let ?fm1 = "store_update k ?f1 fm"
  let ?s = "total_size OriginFileSize fm (children d)"
  let ?f2 = "\<lambda>d'. d' \<lparr> dirFileSize := Some (PrettyBytes (Some ?s)) \<rparr>"
  let ?fm2 = "store_update k ?f2 ?fm1"
  let ?c = "total_size OriginCompressedSize fm (children d)"
  let ?f3 = "\<lambda>d'. d' \<lparr> dirCompressedSize := Some (PrettyBytes (Some ?c)) \<rparr>"
  have only: "v = d" if "(k, v) \<in> set fm" for v
    using in_set_js_get [OF dist that] d by simp
  have "?fm1 = store_update k (\<lambda>_. d \<lparr> children := ?sorted \<rparr>) fm"
    by (rule store_update_cong) (drule only, simp)
  then have sh1: "same_shape fm ?fm1"
    using d by (auto simp: same_shape_def js_keys_store_update js_get_store_update mset_array_sort)
  have sum1: "sum_js ?fm1 ?sorted OriginFileSize 0 = Some ?s"
    using sum_js_total_size [OF same_shape_refs_closed [OF sh1 closed]]
      same_shape_total_size [OF sh1 mset_array_sort]
    by simp
  have sh12: "same_shape ?fm1 ?fm2"
    by (rule same_shape_store_update) simp
  have sh2: "same_shape fm ?fm2"
    by (rule same_shape_trans [OF sh1 sh12])
  have sum2: "sum_js ?fm2 ?sorted OriginCompressedSize 0 = Some ?c"
    using sum_js_total_size [OF same_shape_refs_closed [OF sh2 closed]]
      same_shape_total_size [OF sh2 mset_array_sort]
    by simp
  have "store_update k ?f3 ?fm2 = store_update k (?f3 \<circ> (?f2 \<circ> ?f1)) fm"
    by (simp only: store_update_twice)
  also have "\<dots> = store_update k (\<lambda>_. finalized lc fm d) fm"
    by (rule store_update_cong) (drule only, simp add: finalized_def)
  finally have fin: "store_update k ?f3 ?fm2 = store_update k (\<lambda>_. finalized lc fm d) fm" .
  show ?thesis
    by (simp add: d Let_def sum1 sum2 fin)
qed

lemma finalize_dirs_eq:
  "distinct ks \<Longrightarrow> distinct (js_keys fm) \<Longrightarrow> refs_closed fm \<Longrightarrow>
     finalize_dirs lc ks fm =
       Some (map (\<lambda>(k, d). (k, if k \<in> set ks then finalized lc fm d else d)) fm)"
proof (induction ks arbitrary: fm)
  case Nil
  then show ?case by simp
next
  case (Cons k ks)
  show ?case
  proof (cases "js_get fm k")
    case None
    then have "k \<notin> set (js_keys fm)" by (simp add: js_get_None_keys)
    then have "map (\<lambda>(k', d). (k', if k' \<in> set (k # ks) then finalized lc fm d else d)) fm =
               map (\<lambda>(k', d). (k', if k' \<in> set ks then finalized lc fm d else d)) fm"
      by (intro map_cong) (auto dest: key_in_set)
    then show ?thesis using Cons None by simp
  next
    case (Some d)
    let ?fm' = "store_update k (\<lambda>_. finalized lc fm d) fm"
    have only: "v = d" if "(k, v) \<in> set fm" for v
      using in_set_js_get [OF Cons.prems(2) that] Some by simp
    have sh: "same_shape fm ?fm'"
      using Some
      by (auto simp: same_shape_def js_keys_store_update js_get_store_update finalized_fields)
    have "finalize_dirs lc (k # ks) fm = finalize_dirs lc ks ?fm'"
      by (rule finalize_dirs_step [OF Some Cons.prems(2,3)])
    also have "\<dots> = Some (map (\<lambda>(k', d). (k', if k' \<in> set ks then finalized lc ?fm' d else d)) ?fm')"
      using Cons.prems
      by (intro Cons.IH) (simp_all add: js_keys_store_update same_shape_refs_closed [OF sh])
    also have "map (\<lambda>(k', d). (k', if k' \<in> set ks then finalized lc ?fm' d else d)) ?fm' =
               map (\<lambda>(k', d). (k', if k' \<in> set (k # ks) then finalized lc fm d else d)) fm"
    proof -
      have F: "finalized lc ?fm' = finalized lc fm"
        using same_shape_finalized [OF sh] by (intro ext)
      have "map (\<lambda>(k', d). (k', if k' \<in> set ks then finalized lc fm d else d))
              (map (\<lambda>(k', d'). (k', if k' = k then finalized lc fm d else d')) fm) =
            map (\<lambda>(k', d). (k', if k' \<in> set (k # ks) then finalized lc fm d else d)) fm"
        unfolding map_map using Cons.prems(1)
        by (intro map_cong) (auto dest: only)
      then show ?thesis
        unfolding F by (simp only: store_update_as_map)
    qed
    finally show ?thesis .
  qed
qed

lemma finalize_eq:
  assumes "distinct (js_keys (folderMap st))" "refs_closed (folderMap st)"
  shows "finalize lc st = Some (finalized_state lc st)"
proof -
  let ?fm = "folderMap st"
  let ?fmF = "map (\<lambda>(k, d). (k, finalized lc ?fm d)) ?fm"
  have "map (\<lambda>(k, d). (k, if k \<in> set (js_keys ?fm) then finalized lc ?fm d else d)) ?fm = ?fmF"
    by (intro map_cong) (auto dest: key_in_set)
  then have dirs: "finalize_dirs lc (js_keys ?fm) ?fm = Some ?fmF"
    using finalize_dirs_eq [OF assms(1) assms(1) assms(2), of lc] by simp
  have "same_shape ?fm ?fmF"
    by (rule same_shape_map_values) (simp add: finalized_fields)
  then have "sortFiles lc ?fmF = sortFiles lc ?fm"
    by (rule same_shape_sortFiles)
  then show ?thesis
    by (simp add: finalize_def dirs finalized_state_def)
qed

lemma parseZipAsTree_eq:
  "parseZipAsTree lc bn es =
     Some (case build bn es of Inl e \<Rightarrow> Inl e | Inr st \<Rightarrow> Inr (finalized_state lc st))"
  by (cases "build bn es")
     (simp_all add: parseZipAsTree_def finalize_eq build_distinct build_refs_closed)

subsection \<open>The returned value\<close>

lemma parseZipAsTree_InrE:
  assumes "parseZipAsTree lc bn es = Some (Inr r)"
  obtains st where "build bn es = Inr st" and "r = finalized_state lc st"
  using assms by (auto simp: parseZipAsTree_eq split: sum.splits)

lemma parseZipAsTree_returns: "\<exists>y. parseZipAsTree lc bn es = Some y"
  by (simp add: parseZipAsTree_eq)

lemma finalized_state_simps:
  "folderMap (finalized_state lc st) = map (\<lambda>(k, d). (k, finalized lc (folderMap st) d)) (folderMap st)"
  "files (finalized_state lc st) = array_sort (sortFiles lc (folderMap st)) (files st)"
  "fileMap (finalized_state lc st) = fileMap st"
  by (simp_all add: finalized_state_def)

lemma same_shape_finalized_state: "same_shape (folderMap st) (folderMap (finalized_state lc st))"
  unfolding finalized_state_simps
  by (rule same_shape_map_values) (simp add: finalized_fields)

lemma js_keys_finalized_state: "js_keys (folderMap (finalized_state lc st)) = js_keys (folderMap st)"
  by (simp add: finalized_state_simps js_keys_map_values)

lemma js_get_finalized_state:
  "js_get (folderMap (finalized_state lc st)) k = map_option (finalized lc (folderMap st)) (js_get (folderMap st) k)"
  by (simp add: finalized_state_simps js_get_map_values)

lemma in_finalized_state:
  "(k, d) \<in> set (folderMap (finalized_state lc st)) \<longleftrightarrow>
     (\<exists>d0. (k, d0) \<in> set (folderMap st) \<and> d = finalized lc (folderMap st) d0)"
  by (auto simp: finalized_state_simps)

lemma same_shape_ordered: "same_shape fm fm' \<Longrightarrow> ordered lc fm' xs = ordered lc fm xs"
  by (simp add: ordered_def same_shape_node_fields)

lemma reachable_files_Ref:
  assumes "refs_closed fm" "js_get fm k = Some d"
  shows "reachable_files fm (Ref k) = concat (map (reachable_files fm) (children d))"
proof -
  have "reachable_files fm (Ref k) = files_below (Suc (depth_bound fm)) fm (Ref k)"
    by (rule reachable_files_stable [OF assms(1), symmetric]) simp
  then show ?thesis
    by (simp add: assms(2) reachable_files_def [abs_def])
qed

lemma finalized_idem:
  assumes "total_preorder lc"
  shows "finalized lc fm (finalized lc fm d) = finalized lc fm d"
proof -
  have "array_sort (sortFiles lc fm) (array_sort (sortFiles lc fm) (children d)) =
        array_sort (sortFiles lc fm) (children d)"
    by (rule array_sort_idem [OF total_preorder_sortFiles [OF assms]])
  moreover have "total_size p fm (array_sort (sortFiles lc fm) (children d)) = total_size p fm (children d)" for p
    by (rule same_shape_total_size [OF same_shape_refl mset_array_sort])
  ultimately show ?thesis by (simp add: finalized_def)
qed

lemma finalized_state_idem:
  assumes "total_preorder lc"
  shows "finalized_state lc (finalized_state lc st) = finalized_state lc st"
proof -
  let ?fm = "folderMap st"
  let ?r = "finalized_state lc st"
  have sh: "same_shape ?fm (folderMap ?r)" by (rule same_shape_finalized_state)
  have F: "finalized lc (folderMap ?r) = finalized lc ?fm"
    using same_shape_finalized [OF sh] by (intro ext)
  have S: "sortFiles lc (folderMap ?r) = sortFiles lc ?fm"
    by (rule same_shape_sortFiles [OF sh])
  have "map (\<lambda>(k, d). (k, finalized lc ?fm d)) (map (\<lambda>(k, d). (k, finalized lc ?fm d)) ?fm) =
        map (\<lambda>(k, d). (k, finalized lc ?fm d)) ?fm"
    unfolding map_map
    by (intro map_cong) (auto simp: finalized_idem [OF assms])
  then have "map (\<lambda>(k, d). (k, finalized lc (folderMap ?r) d)) (folderMap ?r) = folderMap ?r"
    unfolding F by (simp only: finalized_state_simps)
  moreover have "array_sort (sortFiles lc (folderMap ?r)) (files ?r) = files ?r"
    unfolding S
    by (simp only: finalized_state_simps array_sort_idem [OF total_preorder_sortFiles [OF assms]])
  ultimately show ?thesis
    by (simp add: finalized_state_def [of lc ?r])
qed

subsection \<open>The comparison of the examples\<close>

lemma codepoint_compare_total: "codepoint_compare a b \<le> 0 \<or> codepoint_compare b a \<le> 0"
proof (induction a b rule: codepoint_compare.induct)
  case (4 x xs y ys)
  define m n :: nat where "m = of_char x" and "n = of_char y"
  have eq: "codepoint_compare (x # xs) (y # ys) = (if m < n then - 1 else if n < m then 1 else codepoint_compare xs ys)"
    "codepoint_compare (y # ys) (x # xs) = (if n < m then - 1 else if m < n then 1 else codepoint_compare ys xs)"
    by (simp_all only: codepoint_compare.simps m_def n_def)
  consider "m < n" | "n < m" | "m = n" by linarith
  then show ?case
  proof cases
    case 1
    then show ?thesis unfolding eq by simp
  next
    case 2
    then show ?thesis unfolding eq by simp
  next
    case 3
    then have "\<not> m < n" "\<not> n < m" by simp_all
    with "4.IH" show ?thesis unfolding eq m_def n_def by simp
  qed
qed simp_all

lemma codepoint_compare_trans:
  "codepoint_compare a b \<le> 0 \<Longrightarrow> codepoint_compare b c \<le> 0 \<Longrightarrow> codepoint_compare a c \<le> 0"
proof (induction a b arbitrary: c rule: codepoint_compare.induct)
  case 1
  then show ?case by simp
next
  case (2 y ys)
  then show ?case by (cases c) simp_all
next
  case (3 x xs)
  then show ?case by simp
next
  case (4 x xs y ys)
  show ?case
  proof (cases c)
    case Nil
    with "4.prems" show ?thesis by simp
  next
    case (Cons z zs)
    define m n l :: nat where "m = of_char x" and "n = of_char y" and "l = of_char z"
    have eq: "codepoint_compare (x # xs) (y # ys) = (if m < n then - 1 else if n < m then 1 else codepoint_compare xs ys)"
      "codepoint_compare (y # ys) (z # zs) = (if n < l then - 1 else if l < n then 1 else codepoint_compare ys zs)"
      "codepoint_compare (x # xs) (z # zs) = (if m < l then - 1 else if l < m then 1 else codepoint_compare xs zs)"
      by (simp_all only: codepoint_compare.simps m_def n_def l_def)
    from "4.prems"(1) have mn: "m \<le> n" unfolding eq by (simp split: if_splits)
    from "4.prems"(2) have nl: "n \<le> l" unfolding Cons eq by (simp split: if_splits)
    show ?thesis
    proof (cases "m < l")
      case True
      then show ?thesis unfolding Cons eq by simp
    next
      case False
      with mn nl have e: "m = n" "n = l" by simp_all
      then have nn: "\<not> m < n" "\<not> n < m" "\<not> n < l" "\<not> l < n" "\<not> m < l" "\<not> l < m" by simp_all
      from "4.prems"(1) have 1: "codepoint_compare xs ys \<le> 0" unfolding eq using nn by simp
      from "4.prems"(2) have 2: "codepoint_compare ys zs \<le> 0" unfolding Cons eq using nn by simp
      have "codepoint_compare xs zs \<le> 0"
        using "4.IH" [OF _ _ 1 2] nn(1,2) unfolding m_def n_def by simp
      then show ?thesis unfolding Cons eq using nn by simp
    qed
  qed
qed

lemma total_preorder_codepoint_compare: "total_preorder codepoint_compare"
  unfolding total_preorder_def
proof (intro conjI allI impI)
  fix a b show "codepoint_compare a b \<le> 0 \<or> codepoint_compare b a \<le> 0"
    by (rule codepoint_compare_total)
next
  fix a b c assume "codepoint_compare a b \<le> 0 \<and> codepoint_compare b c \<le> 0"
  then show "codepoint_compare a c \<le> 0"
    using codepoint_compare_trans by blast
qed

subsection \<open>The file index\<close>

lemma distinct_js_keys_fileMap_assign:
  "distinct (js_keys obj) \<Longrightarrow> distinct (js_keys (fileMap_assign k v obj))"
  by (simp add: fileMap_assign_def distinct_js_keys_set)

lemma js_get_fileMap_assign:
  "js_get (fileMap_assign k v obj) k' =
     (if k' = k \<and> k \<noteq> ''__proto__'' then Some v else js_get obj k')"
  by (simp add: fileMap_assign_def js_get_set)

lemma place_fileMap_distinct:
  assumes "place bn item st = Inr st'" "distinct (js_keys (fileMap st))"
  shows "distinct (js_keys (fileMap st'))"
  using assms
  by (cases item) (auto simp: place_def distinct_js_keys_fileMap_assign split: if_splits)

lemma place_fileMap_keys:
  assumes "place bn item st = Inr st'"
  shows "set (js_keys (fileMap st)) \<subseteq> set (js_keys (fileMap st'))"
  using assms
  by (cases item) (auto simp: place_def set_js_keys_fileMap_assign split: if_splits)

lemma place_fileMap_source:
  assumes "place bn item st = Inr st'" "js_get (fileMap st') k = Some v"
  shows "js_get (fileMap st) k = Some v \<or> item = (k, v, False)"
  using assms
  by (cases item) (auto simp: place_def js_get_fileMap_assign split: if_splits)

lemma place_fileMap_root:
  assumes "place bn (p, x, False) st = Inr st'" "\<not> has_parent p" "p \<noteq> ''__proto__''"
  shows "p \<in> set (js_keys (fileMap st'))"
  using assms by (auto simp: place_def set_js_keys_fileMap_assign)

lemma place_all_fileMap_distinct:
  "place_all bn items st = Inr st' \<Longrightarrow> distinct (js_keys (fileMap st)) \<Longrightarrow>
     distinct (js_keys (fileMap st'))"
  by (induction items arbitrary: st) (auto split: sum.splits dest: place_fileMap_distinct)

lemma place_all_fileMap_keys:
  "place_all bn items st = Inr st' \<Longrightarrow> set (js_keys (fileMap st)) \<subseteq> set (js_keys (fileMap st'))"
proof (induction items arbitrary: st)
  case Nil
  then show ?case by simp
next
  case (Cons item items)
  from Cons.prems obtain st1 where 1: "place bn item st = Inr st1"
    and 2: "place_all bn items st1 = Inr st'"
    by (auto split: sum.splits)
  show ?case
    using place_fileMap_keys [OF 1] Cons.IH [OF 2] by blast
qed

lemma place_all_fileMap_source:
  "place_all bn items st = Inr st' \<Longrightarrow> js_get (fileMap st') k = Some v \<Longrightarrow>
     js_get (fileMap st) k = Some v \<or> (k, v, False) \<in> set items"
proof (induction items arbitrary: st)
  case Nil
  then show ?case by simp
next
  case (Cons item items)
  from Cons.prems obtain st1 where 1: "place bn item st = Inr st1"
    and 2: "place_all bn items st1 = Inr st'"
    by (auto split: sum.splits)
  from Cons.IH [OF 2 Cons.prems(2)] show ?case
    using place_fileMap_source [OF 1] by auto
qed

lemma place_all_fileMap_root:
  "place_all bn items st = Inr st' \<Longrightarrow> (p, x, False) \<in> set items \<Longrightarrow> \<not> has_parent p \<Longrightarrow>
     p \<noteq> ''__proto__'' \<Longrightarrow> p \<in> set (js_keys (fileMap st'))"
proof (induction items arbitrary: st)
  case Nil
  then show ?case by simp
next
  case (Cons item items)
  from Cons.prems(1) obtain st1 where 1: "place bn item st = Inr st1"
    and 2: "place_all bn items st1 = Inr st'"
    by (auto split: sum.splits)
  show ?case
  proof (cases "item = (p, x, False)")
    case True
    then have "p \<in> set (js_keys (fileMap st1))"
      using place_fileMap_root [OF _ Cons.prems(3,4)] 1 by simp
    then show ?thesis using place_all_fileMap_keys [OF 2] by blast
  next
    case False
    with Cons.prems(2) have "(p, x, False) \<in> set items" by simp
    then show ?thesis by (rule Cons.IH [OF 2 _ Cons.prems(3,4)])
  qed
qed

lemma origin_item_in_set:
  "(k, v, False) \<in> origin_item ` set es \<longleftrightarrow>
     (\<exists>e \<in> set es. \<not> isDirectory e \<and> entryName e = k \<and> v = entry_of e)"
  by (auto simp: origin_item_def)

lemma ref_item_not_file: "(k, v, False) \<notin> set (map ref_item ks)" "(k, v, False) \<notin> ref_item ` S"
  by (auto simp: ref_item_def)

lemma build_fileMap_distinct: "build bn es = Inr st \<Longrightarrow> distinct (js_keys (fileMap st))"
  by (erule build_InrE) (auto dest!: place_all_fileMap_distinct simp: empty_state_facts)

lemma build_fileMap_source:
  assumes "build bn es = Inr st" "js_get (fileMap st) k = Some v"
  shows "\<exists>e \<in> set es. \<not> isDirectory e \<and> entryName e = k \<and> v = entry_of e"
proof -
  from assms(1) obtain st1 where 1: "place_all bn (map origin_item es) empty_state = Inr st1"
    and 2: "place_all bn (map ref_item (js_keys (folderMap st1))) st1 = Inr st"
    by (rule build_InrE)
  from place_all_fileMap_source [OF 2 assms(2)] have "js_get (fileMap st1) k = Some v"
    by (simp add: ref_item_not_file)
  from place_all_fileMap_source [OF 1 this] show ?thesis
    by (simp add: empty_state_facts js_get_def origin_item_in_set)
qed

lemma build_fileMap_root:
  assumes "build bn es = Inr st" "e \<in> set es" "\<not> isDirectory e" "\<not> has_parent (entryName e)"
    "entryName e \<noteq> ''__proto__''"
  shows "entryName e \<in> set (js_keys (fileMap st))"
proof -
  from assms(1) obtain st1 where 1: "place_all bn (map origin_item es) empty_state = Inr st1"
    and 2: "place_all bn (map ref_item (js_keys (folderMap st1))) st1 = Inr st"
    by (rule build_InrE)
  have "(entryName e, entry_of e, False) \<in> set (map origin_item es)"
    using assms(2,3) by (force simp: origin_item_def)
  from place_all_fileMap_root [OF 1 this assms(4,5)] show ?thesis
    using place_all_fileMap_keys [OF 2] by blast
qed

subsection \<open>No entry is left out of the tree\<close>

lemma build_keys:
  assumes "build bn es = Inr st"
  shows "set (js_keys (folderMap st)) =
           {parent_path (entryName e) |e. e \<in> set es \<and> has_parent (entryName e)} \<union>
           {parent_path (parent_path (entryName e)) |e.
              e \<in> set es \<and> has_parent (entryName e) \<and> has_parent (parent_path (entryName e))}"
proof -
  from assms obtain st1 where 1: "place_all bn (map origin_item es) empty_state = Inr st1"
    and 2: "place_all bn (map ref_item (js_keys (folderMap st1))) st1 = Inr st"
    by (rule build_InrE)
  let ?K1 = "{parent_path (entryName e) |e. e \<in> set es \<and> has_parent (entryName e)}"
  have K1: "set (js_keys (folderMap st1)) = ?K1"
    by (rule first_pass_keys [OF 1])
  have "{parent_path p |p x isdir. (p, x, isdir) \<in> set (map ref_item (js_keys (folderMap st1))) \<and> has_parent p} =
        {parent_path k |k. k \<in> ?K1 \<and> has_parent k}"
    unfolding K1 [symmetric] by (auto simp: ref_item_def)
  also have "\<dots> = {parent_path (parent_path (entryName e)) |e.
              e \<in> set es \<and> has_parent (entryName e) \<and> has_parent (parent_path (entryName e))}"
    by blast
  finally show ?thesis
    unfolding place_all_keys [OF 2] K1 by simp
qed

lemma build_placed:
  assumes "build bn es = Inr st" "e \<in> set es"
  shows "placed st e"
proof -
  from assms(1) obtain ks where "distinct ks"
    and "set ks = {parent_path (entryName e) |e. e \<in> set es \<and> has_parent (entryName e)}"
    and get: "\<And>k. js_get (folderMap st) k =
            extend_dir bn k None (children_for k (map origin_item es) @ children_for k (map ref_item ks))"
    and files: "files st = roots_of (map origin_item es) @ roots_of (map ref_item ks)"
    and "set ks \<subseteq> set (js_keys (folderMap st))"
    by (rule build_folderMap) blast
  show ?thesis
  proof (cases "has_parent (entryName e)")
    case True
    let ?p = "parent_path (entryName e)"
    have "entry_of e \<in> set (children_for ?p (map origin_item es))"
      using assms(2) True by (force simp: children_for_def origin_item_def)
    then have "entry_of e \<in> set (children_for ?p (map origin_item es) @ children_for ?p (map ref_item ks))"
      (is "_ \<in> set ?cs") by simp
    moreover from this have "extend_dir bn ?p None ?cs = Some (new_dir bn ?p ?cs)"
      by (cases ?cs) auto
    ultimately show ?thesis
      by (simp add: placed_def True get new_dir_def)
  next
    case False
    then have "entry_of e \<in> set (roots_of (map origin_item es))"
      using assms(2) by (force simp: roots_of_def origin_item_def)
    then show ?thesis by (simp add: placed_def False files)
  qed
qed

lemma set_children_finalized: "set (children (finalized lc fm d)) = set (children d)"
  by (simp add: finalized_def set_array_sort)

lemma placed_finalized_state: "placed (finalized_state lc st) e = placed st e"
  by (cases "js_get (folderMap st) (parent_path (entryName e))")
     (simp_all add: placed_def js_get_finalized_state finalized_state_simps(2)
        set_children_finalized set_array_sort)

subsection \<open>Permuting the entries\<close>

lemma sorted_wrt_unique:
  "sorted_wrt le xs \<Longrightarrow> sorted_wrt le ys \<Longrightarrow> mset xs = mset ys \<Longrightarrow>
     (\<forall>a \<in> set xs. \<forall>b \<in> set xs. le a b \<and> le b a \<longrightarrow> a = b) \<Longrightarrow> xs = ys"
proof (induction xs arbitrary: ys)
  case Nil
  then show ?case by simp
next
  case (Cons x xs)
  from Cons.prems(3) obtain y ys' where ys: "ys = y # ys'"
    by (cases ys) auto
  have sets: "set (x # xs) = set (y # ys')"
    using Cons.prems(3) unfolding ys by (metis set_mset_mset)
  have "x = y"
  proof (rule ccontr)
    assume ne: "x \<noteq> y"
    with sets have "x \<in> set ys'" "y \<in> set xs" by auto
    then have "le y x" "le x y"
      using Cons.prems(1,2) by (auto simp: ys)
    with Cons.prems(4) sets have "x = y" by auto
    with ne show False by simp
  qed
  moreover have "xs = ys'"
  proof (rule Cons.IH)
    show "sorted_wrt le xs" using Cons.prems(1) by simp
    show "sorted_wrt le ys'" using Cons.prems(2) by (simp add: ys)
    show "mset xs = mset ys'" using Cons.prems(3) \<open>x = y\<close> by (simp add: ys)
    show "\<forall>a \<in> set xs. \<forall>b \<in> set xs. le a b \<and> le b a \<longrightarrow> a = b"
      using Cons.prems(4) by simp
  qed
  ultimately show ?case by (simp add: ys)
qed

lemma array_sort_permuted:
  assumes "total_preorder cmp" "mset xs' = mset xs"
    and "\<forall>a \<in> set xs. \<forall>b \<in> set xs. cmp a b \<le> 0 \<and> cmp b a \<le> 0 \<longrightarrow> a = b"
  shows "array_sort cmp xs' = array_sort cmp xs"
proof (rule sorted_wrt_unique [where le = "\<lambda>a b. cmp a b \<le> 0", symmetric])
  show "sorted_wrt (\<lambda>a b. cmp a b \<le> 0) (array_sort cmp xs)"
    by (rule sorted_array_sort [OF assms(1)])
  show "sorted_wrt (\<lambda>a b. cmp a b \<le> 0) (array_sort cmp xs')"
    by (rule sorted_array_sort [OF assms(1)])
  show "mset (array_sort cmp xs) = mset (array_sort cmp xs')"
    by (simp add: mset_array_sort assms(2))
  show "\<forall>a \<in> set (array_sort cmp xs). \<forall>b \<in> set (array_sort cmp xs). cmp a b \<le> 0 \<and> cmp b a \<le> 0 \<longrightarrow> a = b"
    using assms(3) by (simp add: set_array_sort)
qed

lemma mset_children_for: "mset items' = mset items \<Longrightarrow> mset (children_for k items') = mset (children_for k items)"
  unfolding children_for_def by (simp only: mset_map mset_filter)

lemma mset_roots_of: "mset items' = mset items \<Longrightarrow> mset (roots_of items') = mset (roots_of items)"
  unfolding roots_of_def by (simp only: mset_map mset_filter)

lemma build_throws:
  "(\<exists>err. build bn es = Inl err) \<longleftrightarrow>
     (\<exists>e \<in> set es. has_parent (entryName e) \<and>
        (parent_path (entryName e) \<in> set object_prototype_names \<or>
         has_parent (parent_path (entryName e)) \<and>
         parent_path (parent_path (entryName e)) \<in> set object_prototype_names))"
proof (cases "place_all bn (map origin_item es) empty_state")
  case (Inl err)
  then have "\<exists>err. place_all bn (map origin_item es) empty_state = Inl err" by blast
  then have "\<exists>e \<in> set es. has_parent (entryName e) \<and> parent_path (entryName e) \<in> set object_prototype_names"
    unfolding place_all_throws [OF empty_state_facts(2)] by (auto simp: origin_item_def)
  then show ?thesis using Inl by (auto simp: build_passes)
next
  case (Inr st1)
  then have "\<not> (\<exists>err. place_all bn (map origin_item es) empty_state = Inl err)" by simp
  then have no1: "\<not> (\<exists>e \<in> set es. has_parent (entryName e) \<and> parent_path (entryName e) \<in> set object_prototype_names)"
    unfolding place_all_throws [OF empty_state_facts(2)] by (force simp: origin_item_def)
  have pf: "proto_free (folderMap st1)"
    using place_all_proto_free [OF Inr] by (simp add: empty_state_facts)
  have "(\<exists>err. build bn es = Inl err) \<longleftrightarrow>
        (\<exists>k \<in> set (js_keys (folderMap st1)). has_parent k \<and> parent_path k \<in> set object_prototype_names)"
    unfolding build_passes Inr using place_all_throws [OF pf, of bn "map ref_item (js_keys (folderMap st1))"]
    by (auto simp: ref_item_def)
  also have "\<dots> \<longleftrightarrow> (\<exists>e \<in> set es. has_parent (entryName e) \<and> has_parent (parent_path (entryName e)) \<and>
         parent_path (parent_path (entryName e)) \<in> set object_prototype_names)"
    unfolding first_pass_keys [OF Inr] by blast
  finally show ?thesis using no1 by blast
qed

lemma build_permuted:
  assumes "mset es' = mset es" "build bn es = Inr st"
  obtains st' where "build bn es' = Inr st'" "same_shape (folderMap st) (folderMap st')"
    "mset (files st') = mset (files st)"
proof -
  have sets: "set es' = set es" using assms(1) by (metis set_mset_mset)
  have "\<not> (\<exists>err. build bn es = Inl err)" using assms(2) by simp
  then have "\<not> (\<exists>err. build bn es' = Inl err)"
    unfolding build_throws sets .
  then obtain st' where st': "build bn es' = Inr st'"
    by (cases "build bn es'") auto
  from assms(2) obtain ks where ks: "distinct ks"
    "set ks = {parent_path (entryName e) |e. e \<in> set es \<and> has_parent (entryName e)}"
    and get: "\<And>k. js_get (folderMap st) k =
            extend_dir bn k None (children_for k (map origin_item es) @ children_for k (map ref_item ks))"
    and files: "files st = roots_of (map origin_item es) @ roots_of (map ref_item ks)"
    and "set ks \<subseteq> set (js_keys (folderMap st))"
    by (rule build_folderMap) blast
  from st' obtain ks' where ks': "distinct ks'"
    "set ks' = {parent_path (entryName e) |e. e \<in> set es' \<and> has_parent (entryName e)}"
    and get': "\<And>k. js_get (folderMap st') k =
            extend_dir bn k None (children_for k (map origin_item es') @ children_for k (map ref_item ks'))"
    and files': "files st' = roots_of (map origin_item es') @ roots_of (map ref_item ks')"
    and "set ks' \<subseteq> set (js_keys (folderMap st'))"
    by (rule build_folderMap) blast
  have mks: "mset ks' = mset ks"
    using ks ks' sets by (simp add: set_eq_iff_mset_eq_distinct [symmetric])
  have mo: "mset (map origin_item es') = mset (map origin_item es)"
    using assms(1) by simp
  have mr: "mset (map ref_item ks') = mset (map ref_item ks)"
    using mks by simp
  have mc: "mset (children_for k (map origin_item es') @ children_for k (map ref_item ks')) =
            mset (children_for k (map origin_item es) @ children_for k (map ref_item ks))" for k
    by (simp add: mset_children_for [OF mo] mset_children_for [OF mr])
  have shape: "same_shape (folderMap st) (folderMap st')"
    unfolding same_shape_def
  proof (intro conjI allI impI)
    show "set (js_keys (folderMap st')) = set (js_keys (folderMap st))"
      unfolding build_keys [OF st'] build_keys [OF assms(2)] sets ..
  next
    fix k d assume d: "js_get (folderMap st) k = Some d"
    let ?cs = "children_for k (map origin_item es) @ children_for k (map ref_item ks)"
    let ?cs' = "children_for k (map origin_item es') @ children_for k (map ref_item ks')"
    from d have "?cs \<noteq> []" and d_eq: "d = new_dir bn k ?cs"
      unfolding get by (cases ?cs; auto)+
    then have "?cs' \<noteq> []" using mc [of k] by (metis mset_zero_iff)
    then have "js_get (folderMap st') k = Some (new_dir bn k ?cs')"
      unfolding get' by (cases ?cs') auto
    then show "\<exists>d'. js_get (folderMap st') k = Some d' \<and> mset (children d') = mset (children d) \<and>
        dirIsDirectory d' = dirIsDirectory d \<and> dirName d' = dirName d"
      using mc [of k] by (simp add: d_eq new_dir_def)
  qed
  have "mset (files st') = mset (files st)"
    unfolding files files' by (simp add: mset_roots_of [OF mo] mset_roots_of [OF mr])
  with st' shape show ?thesis by (rule that)
qed

subsection \<open>The name of a directory\<close>

lemma split_no_slash: "CHR ''/'' \<notin> set cs \<Longrightarrow> split cs = [cs]"
  by (induction cs) auto

lemma split_slash_tail: "CHR ''/'' \<in> set cs \<Longrightarrow> tl (split cs) \<noteq> []"
proof (induction cs)
  case Nil
  then show ?case by simp
next
  case (Cons c cs)
  obtain w ws where sp: "split cs = w # ws" by (cases "split cs") auto
  show ?case
  proof (cases "c = CHR ''/''")
    case True
    then show ?thesis by simp
  next
    case False
    with Cons have "tl (split cs) \<noteq> []" by simp
    then show ?thesis using False sp by simp
  qed
qed

lemma last_split: "last (split p) = rev (takeWhile (\<lambda>c. c \<noteq> CHR ''/'') (rev p))"
proof (induction p)
  case Nil
  then show ?case by simp
next
  case (Cons c cs)
  obtain w ws where sp: "split cs = w # ws" by (cases "split cs") auto
  show ?case
  proof (cases "CHR ''/'' \<in> set cs")
    case True
    then have ws: "ws \<noteq> []" using split_slash_tail [of cs] sp by simp
    have "takeWhile (\<lambda>c. c \<noteq> CHR ''/'') (rev cs @ [c]) = takeWhile (\<lambda>c. c \<noteq> CHR ''/'') (rev cs)"
      using True by (intro takeWhile_append1 [where x = "CHR ''/''"]) auto
    moreover have "last (split (c # cs)) = last (split cs)"
      using ws sp by (cases "c = CHR ''/''") auto
    ultimately show ?thesis using Cons by simp
  next
    case False
    then have one: "split cs = [cs]" by (rule split_no_slash)
    have tw: "takeWhile (\<lambda>c. c \<noteq> CHR ''/'') (rev cs @ [c]) = rev cs @ takeWhile (\<lambda>c. c \<noteq> CHR ''/'') [c]"
      using False by (intro takeWhile_append2) auto
    show ?thesis
    proof (cases "c = CHR ''/''")
      case True
      have "takeWhile (\<lambda>c. c \<noteq> CHR ''/'') (rev cs @ [CHR ''/'']) = rev cs"
        using tw unfolding True by simp
      then show ?thesis by (simp add: True one)
    next
      case False
      then show ?thesis by (simp add: one tw)
    qed
  qed
qed

lemma posix_basename_last_segment:
  assumes "last (split p) \<noteq> []"
  shows "posix_basename p = last (split p)"
proof -
  from assms have "takeWhile (\<lambda>c. c \<noteq> CHR ''/'') (rev p) \<noteq> []"
    by (simp add: last_split)
  then have "dropWhile (\<lambda>c. c = CHR ''/'') (rev p) = rev p"
    by (cases "rev p") (auto split: if_splits)
  then show ?thesis
    by (simp add: posix_basename_def last_split)
qed

subsection \<open>The reachable files, as a set\<close>

lemma files_below_reaches:
  "x \<in> set (files_below n fm (Ref k)) \<Longrightarrow> (\<exists>f. x = File f) \<and> reaches fm k x"
proof (induction n arbitrary: k)
  case 0
  then show ?case by simp
next
  case (Suc n)
  from Suc.prems obtain d where d: "js_get fm k = Some d"
    by (cases "js_get fm k") auto
  with Suc.prems obtain c where c: "c \<in> set (children d)"
    and x: "x \<in> set (files_below n fm c)"
    by auto
  show ?case
  proof (cases c)
    case (Origin e)
    with x show ?thesis by simp
  next
    case (File f)
    with x have "x = File f" by simp
    with d c File show ?thesis by (auto intro: reaches.child)
  next
    case (Ref k')
    with x Suc.IH have "(\<exists>f. x = File f) \<and> reaches fm k' x" by simp
    with d c Ref show ?thesis by (auto intro: reaches.below)
  qed
qed

lemma reaches_reachable_files:
  assumes "refs_closed fm"
  shows "reaches fm k x \<Longrightarrow> x = File f \<Longrightarrow> File f \<in> set (reachable_files fm (Ref k))"
proof (induction rule: reaches.induct)
  case (child k d x)
  have "File f \<in> set (reachable_files fm (File f))"
    by (simp add: reachable_files_def)
  with child show ?case
    unfolding reachable_files_Ref [OF assms child(1)] by auto
next
  case (below k d k' x)
  then have "File f \<in> set (reachable_files fm (Ref k'))" by simp
  with below(2) show ?case
    unfolding reachable_files_Ref [OF assms below(1)] by auto
qed

lemma set_reachable_files:
  assumes "refs_closed fm"
  shows "x \<in> set (reachable_files fm (Ref k)) \<longleftrightarrow> (\<exists>f. x = File f) \<and> reaches fm k x"
  using files_below_reaches [of x "depth_bound fm" fm k] reaches_reachable_files [OF assms, of k x]
  by (auto simp: reachable_files_def)

subsection \<open>Files indexed under a registered directory\<close>

lemma place_all_append:
  "place_all bn (xs @ ys) st =
     (case place_all bn xs st of Inl e \<Rightarrow> Inl e | Inr st1 \<Rightarrow> place_all bn ys st1)"
  by (induction xs arbitrary: st) (simp_all split: sum.splits)

lemma has_parent_not_proto: "has_parent p \<Longrightarrow> p \<noteq> ''__proto__''"
  by (auto simp: has_parent_def parent_segments_def)

lemma place_fileMap_child:
  assumes "place bn (p, x, False) st = Inr st'" "has_parent p"
    "parent_path p \<in> set (js_keys (folderMap st))"
  shows "p \<in> set (js_keys (fileMap st'))"
proof -
  have "js_get (folderMap st) (parent_path p) \<noteq> None"
    using assms(3) by (simp add: js_get_None_keys)
  then show ?thesis
    using assms(1,2) has_parent_not_proto [OF assms(2)]
    by (auto simp: place_def set_js_keys_fileMap_assign split: if_splits)
qed

lemma place_all_fileMap_child:
  assumes "place_all bn (pre @ (p, x, False) # post) st = Inr st'" "has_parent p"
    and "\<exists>(p', x', isdir') \<in> set pre. has_parent p' \<and> parent_path p' = parent_path p"
  shows "p \<in> set (js_keys (fileMap st'))"
proof -
  from assms(1) obtain st1 st2 where 1: "place_all bn pre st = Inr st1"
    and 2: "place bn (p, x, False) st1 = Inr st2"
    and 3: "place_all bn post st2 = Inr st'"
    by (auto simp: place_all_append split: sum.splits)
  from assms(3) obtain p' x' isdir' where "(p', x', isdir') \<in> set pre" "has_parent p'"
    "parent_path p' = parent_path p"
    by auto
  then have "parent_path p \<in> {parent_path q |q y isdir. (q, y, isdir) \<in> set pre \<and> has_parent q}"
    by (metis (mono_tags, lifting) mem_Collect_eq)
  then have "parent_path p \<in> set (js_keys (folderMap st1))"
    unfolding place_all_keys [OF 1] by simp
  from place_fileMap_child [OF 2 assms(2) this] show ?thesis
    using place_all_fileMap_keys [OF 3] by blast
qed

lemma build_fileMap_child:
  assumes "build bn (pre @ e # post) = Inr st" "\<not> isDirectory e" "has_parent (entryName e)"
    and "\<exists>e' \<in> set pre. has_parent (entryName e') \<and> parent_path (entryName e') = parent_path (entryName e)"
  shows "entryName e \<in> set (js_keys (fileMap st))"
proof -
  from assms(1) obtain st1 where
    1: "place_all bn (map origin_item (pre @ e # post)) empty_state = Inr st1"
    and 2: "place_all bn (map ref_item (js_keys (folderMap st1))) st1 = Inr st"
    by (rule build_InrE)
  have items: "map origin_item (pre @ e # post) =
               map origin_item pre @ (entryName e, entry_of e, False) # map origin_item post"
    using assms(2) by (simp add: origin_item_def)
  have "\<exists>(p', x', isdir') \<in> set (map origin_item pre).
          has_parent p' \<and> parent_path p' = parent_path (entryName e)"
    using assms(4) by (force simp: origin_item_def)
  from place_all_fileMap_child [OF 1 [unfolded items] assms(3) this]
  show ?thesis
    using place_all_fileMap_keys [OF 2] by blast
qed

subsection \<open>The keys of the directory index are path prefixes\<close>

lemma build_keys_ancestor:
  assumes "build bn es = Inr st" "k \<in> set (js_keys (folderMap st))"
  shows "\<exists>e \<in> set es. ancestor k (entryName e)"
  using assms(2) unfolding build_keys [OF assms(1)]
  by (auto intro: ancestor.parent ancestor.further)

lemma ancestor_shorter: "ancestor q p \<Longrightarrow> length q < length p"
proof (induction rule: ancestor.induct)
  case (parent p)
  then show ?case by (simp add: parent_path_def has_parent_def parent_path_shorter)
next
  case (further q p)
  have "length (parent_path q) < length q"
    using further(2) by (simp add: parent_path_def has_parent_def parent_path_shorter)
  with further show ?case by simp
qed

section \<open>The claims\<close>

subsection \<open>C1: ancestors of the paths in fileMap\<close>

text \<open>
  C1 at the input \<^verbatim>\<open>a/b/c/d.txt\<close>, \<^verbatim>\<open>a/b/c/e.txt\<close>: the function returns,
  \<^verbatim>\<open>fileMap\<close> has the key \<^verbatim>\<open>a/b/c/e.txt\<close>, and \<^verbatim>\<open>folderMap\<close> has the keys
  \<^verbatim>\<open>a/b/c\<close> and \<^verbatim>\<open>a/b\<close> only: the prefix \<^verbatim>\<open>a\<close> of a key of \<^verbatim>\<open>fileMap\<close> is not
  registered. The second pass runs once over the directories of the first pass; a
  directory that the second pass creates is never given a parent, nor put among the roots.
\<close>

theorem C1_deep_path_ancestor_not_registered:
  "map_option (map_sum id (\<lambda>r. (files r, js_keys (fileMap r), js_keys (folderMap r))))
       (parseZipAsTree codepoint_compare posix_basename deep_files) =
     Some (Inr ([], [''a/b/c/e.txt''], [''a/b/c'', ''a/b'']))"
  by code_simp

subsection \<open>C2: the sum law\<close>

text \<open>
  C2: when the function returns, the byte count formatted into \<^verbatim>\<open>fileSize\<close> of every
  directory node of \<^verbatim>\<open>folderMap\<close> is the sum of \<^verbatim>\<open>originFileSize\<close> over the file
  nodes reachable from it through \<^verbatim>\<open>children\<close> edges, and the one formatted into
  \<^verbatim>\<open>compressedSize\<close> is the sum of \<^verbatim>\<open>originCompressedSize\<close> over them. Directory
  nodes are not among the summands. The summands are the occurrences of the file nodes
  \<open>x\<close> with \<open>reaches\<close> from the directory, and their list does not change when
  more references than \<open>depth_bound\<close> may be followed.
\<close>

theorem C2_aggregate_is_sum_over_reachable_files:
  assumes "parseZipAsTree lc bn es = Some (Inr r)" and "(k, d) \<in> set (folderMap r)"
  shows "dirFileSize d = Some (PrettyBytes (Some
           (sum_list (map (own_size OriginFileSize) (reachable_files (folderMap r) (Ref k)))))) \<and>
         dirCompressedSize d = Some (PrettyBytes (Some
           (sum_list (map (own_size OriginCompressedSize) (reachable_files (folderMap r) (Ref k)))))) \<and>
         (\<forall>x. x \<in> set (reachable_files (folderMap r) (Ref k)) \<longleftrightarrow>
                (\<exists>f. x = File f) \<and> reaches (folderMap r) k x) \<and>
         (\<forall>n \<ge> depth_bound (folderMap r).
            files_below n (folderMap r) (Ref k) = reachable_files (folderMap r) (Ref k))"
proof -
  from assms(1) obtain st where st: "build bn es = Inr st" and r: "r = finalized_state lc st"
    by (rule parseZipAsTree_InrE)
  let ?fm = "folderMap st"
  have sh: "same_shape ?fm (folderMap r)"
    unfolding r by (rule same_shape_finalized_state)
  have closed: "refs_closed (folderMap r)"
    by (rule same_shape_refs_closed [OF sh build_refs_closed [OF st]])
  have dist: "distinct (js_keys (folderMap r))"
    unfolding r js_keys_finalized_state by (rule build_distinct [OF st])
  from assms(2) obtain d0 where d0: "(k, d0) \<in> set ?fm" and d: "d = finalized lc ?fm d0"
    unfolding r in_finalized_state by blast
  have get: "js_get (folderMap r) k = Some d"
    by (rule in_set_js_get [OF dist assms(2)])
  have ms: "mset (children d) = mset (children d0)"
    by (simp add: d finalized_fields)
  have total: "sum_list (map (own_size p) (reachable_files (folderMap r) (Ref k))) =
               total_size p ?fm (children d0)" for p
    unfolding reachable_files_Ref [OF closed get]
    using same_shape_total_size [OF sh ms, of p] by (simp add: total_size_def)
  have stable: "\<forall>n \<ge> depth_bound (folderMap r).
          files_below n (folderMap r) (Ref k) = reachable_files (folderMap r) (Ref k)"
    using reachable_files_stable [OF closed] by blast
  have reach: "\<forall>x. x \<in> set (reachable_files (folderMap r) (Ref k)) \<longleftrightarrow>
                (\<exists>f. x = File f) \<and> reaches (folderMap r) k x"
    using set_reachable_files [OF closed] by blast
  have "dirFileSize d = Some (PrettyBytes (Some (total_size OriginFileSize ?fm (children d0))))"
    "dirCompressedSize d = Some (PrettyBytes (Some (total_size OriginCompressedSize ?fm (children d0))))"
    by (simp_all add: d finalized_def)
  with stable reach show ?thesis
    by (simp only: total simp_thms)
qed

theorem C2_aggregate_is_sum_over_reachable_files_witness:
  "parseZipAsTree codepoint_compare posix_basename nested_files =
     Some (Inr \<lparr> files = [],
       fileMap = [(''p/q/s.txt'', entry_of (file_entry ''p/q/s.txt'' ''s.txt'' 2))],
       folderMap =
         [(''p/q'', \<lparr> dirIsDirectory = True,
              children = [entry_of (file_entry ''p/q/r.txt'' ''r.txt'' 1),
                          entry_of (file_entry ''p/q/s.txt'' ''s.txt'' 2)],
              dirEntryName = ''p/q'', dirName = ''q'',
              dirFileSize = Some (PrettyBytes (Some 3)),
              dirCompressedSize = Some (PrettyBytes (Some 3)) \<rparr>),
          (''p'', \<lparr> dirIsDirectory = True, children = [Ref ''p/q''],
              dirEntryName = ''p'', dirName = ''p'',
              dirFileSize = Some (PrettyBytes (Some 3)),
              dirCompressedSize = Some (PrettyBytes (Some 3)) \<rparr>)] \<rparr>) \<and>
   sum_list (map (own_size OriginFileSize)
     (reachable_files
        [(''p/q'', \<lparr> dirIsDirectory = True,
              children = [entry_of (file_entry ''p/q/r.txt'' ''r.txt'' 1),
                          entry_of (file_entry ''p/q/s.txt'' ''s.txt'' 2)],
              dirEntryName = ''p/q'', dirName = ''q'',
              dirFileSize = Some (PrettyBytes (Some 3)),
              dirCompressedSize = Some (PrettyBytes (Some 3)) \<rparr>),
          (''p'', \<lparr> dirIsDirectory = True, children = [Ref ''p/q''],
              dirEntryName = ''p'', dirName = ''p'',
              dirFileSize = Some (PrettyBytes (Some 3)),
              dirCompressedSize = Some (PrettyBytes (Some 3)) \<rparr>)]
        (Ref ''p''))) = 3"
  (is "?run = Some (Inr ?r) \<and> ?sum = 3")
proof -
  have run: "?run = Some (Inr ?r)" by code_simp
  have mem: "(''p'', snd (folderMap ?r ! 1)) \<in> set (folderMap ?r)" by simp
  have "Some (PrettyBytes (Some 3)) = Some (PrettyBytes (Some ?sum))"
    using C2_aggregate_is_sum_over_reachable_files [OF run mem] by simp
  then have "?sum = 3" by simp
  with run show ?thesis by (rule conjI)
qed

subsection \<open>C3: an explicit directory and a file in it\<close>

text \<open>
  C3, as stated, at its own input: the object stored under \<^verbatim>\<open>folderMap["x"]\<close> is not
  the entry that the archive records for the directory. Its \<^verbatim>\<open>entryName\<close> differs
  from the entry's, and the entry is one of its children.
\<close>

theorem C3_registered_node_is_not_the_explicit_entry:
  "(case parseZipAsTree codepoint_compare posix_basename explicit_dir_and_file of
      Some (Inr r) \<Rightarrow>
        (case js_get (folderMap r) ''x'' of
           Some d \<Rightarrow> dirEntryName d \<noteq> entryName (dir_entry ''x/'' ''x'') \<and>
                     Origin (dir_entry ''x/'' ''x'') \<in> set (children d)
         | None \<Rightarrow> False)
    | _ \<Rightarrow> False)"
  by code_simp

text \<open>
  C3, amended: for the entries \<^verbatim>\<open>x/\<close> (a directory) and \<^verbatim>\<open>x/y.txt\<close> of raw size 5,
  the node stored under \<^verbatim>\<open>folderMap["x"]\<close> is a directory object made by the builder,
  with \<^verbatim>\<open>entryName\<close> \<^verbatim>\<open>x\<close>; its children are the entry of the archive for
  \<^verbatim>\<open>x/\<close> and the file; the byte count formatted into its \<^verbatim>\<open>fileSize\<close> is 5; and it
  is the only root.
\<close>

theorem C3_scenario_explicit_directory:
  "parseZipAsTree codepoint_compare posix_basename explicit_dir_and_file =
     Some (Inr \<lparr> files = [Ref ''x''],
       fileMap = [(''x/y.txt'', entry_of (file_entry ''x/y.txt'' ''y.txt'' 5))],
       folderMap = [(''x'',
         \<lparr> dirIsDirectory = True,
           children = [Origin (dir_entry ''x/'' ''x''), entry_of (file_entry ''x/y.txt'' ''y.txt'' 5)],
           dirEntryName = ''x'', dirName = ''x'',
           dirFileSize = Some (PrettyBytes (Some 5)),
           dirCompressedSize = Some (PrettyBytes (Some 5)) \<rparr>)] \<rparr>)"
  by code_simp

subsection \<open>C4: permuting the entries\<close>

text \<open>
  C4, as stated, at two file entries of the same path \<^verbatim>\<open>a.txt\<close> and of sizes 1 and
  2: the sort is stable and the two nodes compare as equal, so the root sequence keeps
  the order of the input, and the reversed input gives the reversed root sequence.
\<close>

theorem C4_order_of_ties_follows_input:
  "mset (rev same_name_files) = mset same_name_files \<and>
   map_option (map_sum id files) (parseZipAsTree codepoint_compare posix_basename same_name_files) =
     Some (Inr [entry_of (file_entry ''a.txt'' ''a.txt'' 1), entry_of (file_entry ''a.txt'' ''a.txt'' 2)]) \<and>
   map_option (map_sum id files) (parseZipAsTree codepoint_compare posix_basename (rev same_name_files)) =
     Some (Inr [entry_of (file_entry ''a.txt'' ''a.txt'' 2), entry_of (file_entry ''a.txt'' ''a.txt'' 1)])"
proof (intro conjI)
  show "mset (rev same_name_files) = mset same_name_files" by simp
  show "map_option (map_sum id files) (parseZipAsTree codepoint_compare posix_basename same_name_files) =
     Some (Inr [entry_of (file_entry ''a.txt'' ''a.txt'' 1), entry_of (file_entry ''a.txt'' ''a.txt'' 2)])"
    by code_simp
  show "map_option (map_sum id files) (parseZipAsTree codepoint_compare posix_basename (rev same_name_files)) =
     Some (Inr [entry_of (file_entry ''a.txt'' ''a.txt'' 2), entry_of (file_entry ''a.txt'' ''a.txt'' 1)])"
    by code_simp
qed

text \<open>
  C4, amended: for a \<^verbatim>\<open>localeCompare\<close> that is a total preorder and a permutation of
  the entries: when the function returns on the entries, it returns on the permutation,
  and the two results have the same keys in
  \<^verbatim>\<open>folderMap\<close>, with, under each key, the same \<^verbatim>\<open>isDirectory\<close>, \<^verbatim>\<open>entryName\<close>
  and \<^verbatim>\<open>name\<close>, the same aggregates and the same children up to their order; the
  root sequences are the same up to their order; and a root or children sequence in
  which no two nodes compare as equal is the same in both results, order included.
  Nothing is said of \<^verbatim>\<open>fileMap\<close>.
\<close>

theorem C4_permutation_gives_same_tree:
  assumes "total_preorder lc" and "mset es' = mset es"
    and "parseZipAsTree lc bn es = Some (Inr r)"
  shows "\<exists>r'. parseZipAsTree lc bn es' = Some (Inr r') \<and>
           set (js_keys (folderMap r')) = set (js_keys (folderMap r)) \<and>
           mset (files r') = mset (files r) \<and>
           (no_ties lc (folderMap r) (files r) \<longrightarrow> files r' = files r) \<and>
           (\<forall>(k, d) \<in> set (folderMap r). \<exists>d'. (k, d') \<in> set (folderMap r') \<and>
               dirIsDirectory d' = dirIsDirectory d \<and> dirEntryName d' = dirEntryName d \<and>
               dirName d' = dirName d \<and>
               dirFileSize d' = dirFileSize d \<and> dirCompressedSize d' = dirCompressedSize d \<and>
               mset (children d') = mset (children d) \<and>
               (no_ties lc (folderMap r) (children d) \<longrightarrow> children d' = children d))"
proof -
  from assms(3) obtain st where st: "build bn es = Inr st" and r: "r = finalized_state lc st"
    by (rule parseZipAsTree_InrE)
  from assms(2) st obtain st' where st': "build bn es' = Inr st'"
    and shape: "same_shape (folderMap st) (folderMap st')"
    and roots: "mset (files st') = mset (files st)"
    by (rule build_permuted)
  let ?fm = "folderMap st" and ?fm' = "folderMap st'"
  define r' where "r' = finalized_state lc st'"
  have run: "parseZipAsTree lc bn es' = Some (Inr r')"
    by (simp add: parseZipAsTree_eq st' r'_def)
  have tp: "total_preorder (sortFiles lc ?fm)"
    by (rule total_preorder_sortFiles [OF assms(1)])
  have S': "sortFiles lc ?fm' = sortFiles lc ?fm"
    by (rule same_shape_sortFiles [OF shape])
  have Sr: "sortFiles lc (folderMap r) = sortFiles lc ?fm"
    unfolding r by (rule same_shape_sortFiles [OF same_shape_finalized_state])
  have keys: "set (js_keys (folderMap r')) = set (js_keys (folderMap r))"
    unfolding r r'_def js_keys_finalized_state using shape by (simp add: same_shape_def)
  have fr: "files r = array_sort (sortFiles lc ?fm) (files st)"
    and fr': "files r' = array_sort (sortFiles lc ?fm) (files st')"
    by (simp_all add: r r'_def finalized_state_simps S')
  have mfiles: "mset (files r') = mset (files r)"
    by (simp add: fr fr' mset_array_sort roots)
  have ofiles: "files r' = files r" if "no_ties lc (folderMap r) (files r)"
    unfolding fr fr'
    using that
    by (intro array_sort_permuted [OF tp roots]) (simp add: no_ties_def Sr fr set_array_sort)
  have dirs: "\<exists>d'. (k, d') \<in> set (folderMap r') \<and>
               dirIsDirectory d' = dirIsDirectory d \<and> dirEntryName d' = dirEntryName d \<and>
               dirName d' = dirName d \<and>
               dirFileSize d' = dirFileSize d \<and> dirCompressedSize d' = dirCompressedSize d \<and>
               mset (children d') = mset (children d) \<and>
               (no_ties lc (folderMap r) (children d) \<longrightarrow> children d' = children d)"
    if kd: "(k, d) \<in> set (folderMap r)" for k d
  proof -
    from kd obtain d0 where d0: "(k, d0) \<in> set ?fm" and d: "d = finalized lc ?fm d0"
      unfolding r in_finalized_state by blast
    have g0: "js_get ?fm k = Some d0"
      by (rule in_set_js_get [OF build_distinct [OF st] d0])
    from same_shape_SomeD [OF shape g0] obtain d0' where g0': "js_get ?fm' k = Some d0'"
      and ms: "mset (children d0') = mset (children d0)"
      and fields: "dirIsDirectory d0' = dirIsDirectory d0" "dirName d0' = dirName d0"
      by blast
    define d' where "d' = finalized lc ?fm' d0'"
    have mem: "(k, d') \<in> set (folderMap r')"
      unfolding r'_def in_finalized_state d'_def using js_get_in_set [OF g0'] by blast
    have en: "dirEntryName d' = dirEntryName d"
      using build_dirs_ok [OF st] build_dirs_ok [OF st'] g0 g0'
      by (simp add: d d'_def finalized_fields dirs_ok_def)
    have sizes: "total_size p ?fm' (children d0') = total_size p ?fm (children d0)" for p
      by (rule same_shape_total_size [OF shape ms])
    have cd: "children d = array_sort (sortFiles lc ?fm) (children d0)"
      and cd': "children d' = array_sort (sortFiles lc ?fm) (children d0')"
      by (simp_all add: d d'_def finalized_def S')
    have same: "children d' = children d" if "no_ties lc (folderMap r) (children d)"
      unfolding cd cd'
      using that
      by (intro array_sort_permuted [OF tp ms]) (simp add: no_ties_def Sr cd set_array_sort)
    have "dirIsDirectory d' = dirIsDirectory d \<and> dirName d' = dirName d \<and>
          dirFileSize d' = dirFileSize d \<and> dirCompressedSize d' = dirCompressedSize d \<and>
          mset (children d') = mset (children d)"
      by (simp add: d d'_def finalized_def fields sizes mset_array_sort ms)
    with mem en same show ?thesis by blast
  qed
  from run keys mfiles ofiles dirs show ?thesis by blast
qed

theorem C4_permutation_gives_same_tree_witness:
  "total_preorder codepoint_compare \<and>
   mset (rev mixed_entries) = mset mixed_entries \<and>
   parseZipAsTree codepoint_compare posix_basename mixed_entries =
     Some (Inr \<lparr> files = [Ref ''d'', entry_of (file_entry ''b.txt'' ''b.txt'' 1)],
       fileMap = [(''b.txt'', entry_of (file_entry ''b.txt'' ''b.txt'' 1))],
       folderMap = [(''d'',
         \<lparr> dirIsDirectory = True,
           children = [Origin (dir_entry ''d/'' ''d''), entry_of (file_entry ''d/c.txt'' ''c.txt'' 2)],
           dirEntryName = ''d'', dirName = ''d'',
           dirFileSize = Some (PrettyBytes (Some 2)),
           dirCompressedSize = Some (PrettyBytes (Some 2)) \<rparr>)] \<rparr>) \<and>
   (\<exists>r'. parseZipAsTree codepoint_compare posix_basename (rev mixed_entries) = Some (Inr r') \<and>
         files r' = [Ref ''d'', entry_of (file_entry ''b.txt'' ''b.txt'' 1)])"
  (is "?tp \<and> ?perm \<and> ?run = Some (Inr ?r) \<and> ?same")
proof -
  have tp: ?tp by (rule total_preorder_codepoint_compare)
  have perm: ?perm by simp
  have run: "?run = Some (Inr ?r)" by code_simp
  have ties: "no_ties codepoint_compare (folderMap ?r) (files ?r)"
    by code_simp
  from C4_permutation_gives_same_tree [OF tp perm run] obtain r' where
    "parseZipAsTree codepoint_compare posix_basename (rev mixed_entries) = Some (Inr r')"
    "no_ties codepoint_compare (folderMap ?r) (files ?r) \<longrightarrow> files r' = files ?r"
    by blast
  with ties have ?same by simp
  with tp perm run show ?thesis by (intro conjI)
qed

subsection \<open>C5: the ordering law\<close>

text \<open>
  C5: for a \<^verbatim>\<open>localeCompare\<close> that is a total preorder, when the function returns,
  the root sequence and the children of every directory node of \<^verbatim>\<open>folderMap\<close> have
  no file before a directory, and the names of the directories, and those of the files,
  are in non-decreasing order.
\<close>

theorem C5_roots_and_children_ordered:
  assumes "total_preorder lc" and "parseZipAsTree lc bn es = Some (Inr r)"
  shows "ordered lc (folderMap r) (files r) \<and>
         (\<forall>(k, d) \<in> set (folderMap r). ordered lc (folderMap r) (children d))"
proof -
  from assms(2) obtain st where st: "build bn es = Inr st" and r: "r = finalized_state lc st"
    by (rule parseZipAsTree_InrE)
  let ?fm = "folderMap st"
  have sh: "same_shape ?fm (folderMap r)"
    unfolding r by (rule same_shape_finalized_state)
  have "ordered lc ?fm (files r)"
    unfolding r finalized_state_simps by (rule ordered_array_sort [OF assms(1)])
  moreover have "ordered lc ?fm (children d)" if "(k, d) \<in> set (folderMap r)" for k d
  proof -
    from that obtain d0 where "d = finalized lc ?fm d0"
      unfolding r in_finalized_state by blast
    then show ?thesis
      by (simp add: finalized_def ordered_array_sort [OF assms(1)])
  qed
  ultimately show ?thesis
    unfolding same_shape_ordered [OF sh] by blast
qed

theorem C5_roots_and_children_ordered_witness:
  "total_preorder codepoint_compare \<and>
   parseZipAsTree codepoint_compare posix_basename explicit_dir_and_file =
     Some (Inr \<lparr> files = [Ref ''x''],
       fileMap = [(''x/y.txt'', entry_of (file_entry ''x/y.txt'' ''y.txt'' 5))],
       folderMap = [(''x'',
         \<lparr> dirIsDirectory = True,
           children = [Origin (dir_entry ''x/'' ''x''), entry_of (file_entry ''x/y.txt'' ''y.txt'' 5)],
           dirEntryName = ''x'', dirName = ''x'',
           dirFileSize = Some (PrettyBytes (Some 5)),
           dirCompressedSize = Some (PrettyBytes (Some 5)) \<rparr>)] \<rparr>) \<and>
   ordered codepoint_compare
     [(''x'',
         \<lparr> dirIsDirectory = True,
           children = [Origin (dir_entry ''x/'' ''x''), entry_of (file_entry ''x/y.txt'' ''y.txt'' 5)],
           dirEntryName = ''x'', dirName = ''x'',
           dirFileSize = Some (PrettyBytes (Some 5)),
           dirCompressedSize = Some (PrettyBytes (Some 5)) \<rparr>)]
     [Origin (dir_entry ''x/'' ''x''), entry_of (file_entry ''x/y.txt'' ''y.txt'' 5)]"
  (is "?tp \<and> ?run = Some (Inr ?r) \<and> ?ord")
proof -
  have tp: ?tp by (rule total_preorder_codepoint_compare)
  have run: "?run = Some (Inr ?r)" by code_simp
  have "?ord"
    using C5_roots_and_children_ordered [OF tp run] by simp
  with tp run show ?thesis by (intro conjI)
qed

subsection \<open>C6: entries whose path has no usable segment\<close>

text \<open>
  C6, as stated, at the input \<^verbatim>\<open>/\<close> (a directory), an entry with the empty
  \<^verbatim>\<open>entryName\<close> and \<^verbatim>\<open>a.txt\<close>: nothing is skipped. The root sequence holds a
  directory of empty name, made for the entry \<^verbatim>\<open>/\<close>, and the entry of empty
  \<^verbatim>\<open>entryName\<close>; the empty string is a key of \<^verbatim>\<open>fileMap\<close> and of \<^verbatim>\<open>folderMap\<close>.
\<close>

theorem C6_empty_paths_are_not_skipped:
  "map_option (map_sum id (\<lambda>r. (files r, map (node_name (folderMap r)) (files r),
                                  js_keys (fileMap r), js_keys (folderMap r))))
       (parseZipAsTree codepoint_compare posix_basename root_marker_and_empty) =
     Some (Inr ([Ref [], entry_of (file_entry [] [] 1), entry_of (file_entry ''a.txt'' ''a.txt'' 2)],
                [[], [], ''a.txt''],
                [[], ''a.txt''],
                [[]]))"
  by code_simp

text \<open>
  C6, amended: when the function returns, no entry is skipped. An entry with the empty
  \<^verbatim>\<open>entryName\<close> is in the root sequence and, when it is a file, the empty string is a
  key of \<^verbatim>\<open>fileMap\<close>. An entry whose \<^verbatim>\<open>entryName\<close> is \<^verbatim>\<open>/\<close> is a child of the
  directory object stored under the empty key of \<^verbatim>\<open>folderMap\<close>, whose name is
  \<^verbatim>\<open>basename('')\<close> and which is in the root sequence. Every entry of the input is in
  the tree, at the root or under the directory of its parent path.
\<close>

theorem C6_every_entry_is_placed:
  assumes "parseZipAsTree lc bn es = Some (Inr r)" and "e \<in> set es"
  shows "placed r e \<and>
         (entryName e = [] \<longrightarrow>
            entry_of e \<in> set (files r) \<and> (\<not> isDirectory e \<longrightarrow> [] \<in> set (js_keys (fileMap r)))) \<and>
         (entryName e = ''/'' \<longrightarrow>
            (\<exists>d. js_get (folderMap r) [] = Some d \<and> entry_of e \<in> set (children d) \<and>
                 dirEntryName d = [] \<and> dirName d = bn []) \<and>
            Ref [] \<in> set (files r))"
proof -
  from assms(1) obtain st where st: "build bn es = Inr st" and r: "r = finalized_state lc st"
    by (rule parseZipAsTree_InrE)
  have placed: "placed r e"
    unfolding r placed_finalized_state by (rule build_placed [OF st assms(2)])
  have np: "\<not> has_parent []" by (simp add: has_parent_def)
  have empty: "entry_of e \<in> set (files r) \<and> (\<not> isDirectory e \<longrightarrow> [] \<in> set (js_keys (fileMap r)))"
    if e: "entryName e = []"
  proof -
    have "entry_of e \<in> set (files r)"
      using placed np by (simp add: placed_def e)
    moreover have "[] \<in> set (js_keys (fileMap r))" if "\<not> isDirectory e"
      using build_fileMap_root [OF st assms(2) that] np
      by (simp add: e r finalized_state_simps)
    ultimately show ?thesis by simp
  qed
  have marker: "(\<exists>d. js_get (folderMap r) [] = Some d \<and> entry_of e \<in> set (children d) \<and>
                 dirEntryName d = [] \<and> dirName d = bn []) \<and> Ref [] \<in> set (files r)"
    if e: "entryName e = ''/''"
  proof -
    have hp: "has_parent (entryName e)" "parent_path (entryName e) = []"
      using parent_path_trailing_slash [of "[]"] by (simp_all add: e has_parent_def parent_path_def)
    from placed obtain d where d: "js_get (folderMap r) [] = Some d" "entry_of e \<in> set (children d)"
      by (auto simp: placed_def hp split: option.splits)
    from d(1) obtain d0 where d0: "js_get (folderMap st) [] = Some d0" "d = finalized lc (folderMap st) d0"
      unfolding r js_get_finalized_state by auto
    have fields: "dirEntryName d = [] \<and> dirName d = bn []"
      using build_dirs_ok [OF st] d0 by (simp add: dirs_ok_def finalized_fields)
    from st obtain ks where "distinct ks"
      and ks: "set ks = {parent_path (entryName e) |e. e \<in> set es \<and> has_parent (entryName e)}"
      and "\<And>k. js_get (folderMap st) k =
            extend_dir bn k None (children_for k (map origin_item es) @ children_for k (map ref_item ks))"
      and files: "files st = roots_of (map origin_item es) @ roots_of (map ref_item ks)"
      and "set ks \<subseteq> set (js_keys (folderMap st))"
      by (rule build_folderMap) blast
    have "[] \<in> set ks"
      unfolding ks using assms(2) hp by force
    then have "Ref [] \<in> set (roots_of (map ref_item ks))"
      using np by (force simp: roots_of_def ref_item_def)
    then have "Ref [] \<in> set (files r)"
      by (simp add: r finalized_state_simps set_array_sort files)
    with d fields show ?thesis by blast
  qed
  from placed empty marker show ?thesis by blast
qed

theorem C6_every_entry_is_placed_witness:
  "parseZipAsTree codepoint_compare posix_basename [dir_entry ''/'' [], file_entry [] [] 1] =
     Some (Inr \<lparr> files = [Ref [], entry_of (file_entry [] [] 1)],
       fileMap = [([], entry_of (file_entry [] [] 1))],
       folderMap = [([],
         \<lparr> dirIsDirectory = True, children = [Origin (dir_entry ''/'' [])],
           dirEntryName = [], dirName = [],
           dirFileSize = Some (PrettyBytes (Some 0)),
           dirCompressedSize = Some (PrettyBytes (Some 0)) \<rparr>)] \<rparr>) \<and>
   dir_entry ''/'' [] \<in> set [dir_entry ''/'' [], file_entry [] [] 1] \<and>
   entryName (dir_entry ''/'' []) = ''/'' \<and>
   placed \<lparr> files = [Ref [], entry_of (file_entry [] [] 1)],
       fileMap = [([], entry_of (file_entry [] [] 1))],
       folderMap = [([],
         \<lparr> dirIsDirectory = True, children = [Origin (dir_entry ''/'' [])],
           dirEntryName = [], dirName = [],
           dirFileSize = Some (PrettyBytes (Some 0)),
           dirCompressedSize = Some (PrettyBytes (Some 0)) \<rparr>)] \<rparr> (dir_entry ''/'' []) \<and>
   Ref [] \<in> set [Ref [], entry_of (file_entry [] [] 1)]"
  (is "?run = Some (Inr ?r) \<and> ?mem \<and> ?name \<and> ?placed \<and> ?root")
proof -
  have run: "?run = Some (Inr ?r)" by code_simp
  have mem: ?mem by simp
  have name: ?name by (simp add: dir_entry_def)
  have "?placed \<and> ?root"
    using C6_every_entry_is_placed [OF run mem] name by simp
  with run mem name show ?thesis by (intro conjI) simp_all
qed

subsection \<open>C7: the two indices\<close>

text \<open>
  C7, as stated, at the input \<^verbatim>\<open>x/\<close> (a directory), \<^verbatim>\<open>x/y.txt\<close> and a file
  \<^verbatim>\<open>x\<close>: the key sets are not disjoint, \<^verbatim>\<open>x\<close> is a key of both.
\<close>

theorem C7_key_sets_not_disjoint:
  "map_option (map_sum id (\<lambda>r. (js_keys (fileMap r), js_keys (folderMap r))))
       (parseZipAsTree codepoint_compare posix_basename collision_explicit) =
     Some (Inr ([''x/y.txt'', ''x''], [''x'']))"
  by code_simp

text \<open>
  C7, amended: when the function returns, no key occurs twice in \<^verbatim>\<open>fileMap\<close> or in
  \<^verbatim>\<open>folderMap\<close>. Every key of \<^verbatim>\<open>fileMap\<close> is the full path of a file entry of the
  input and its value is the node built for such an entry; a file entry is a key of
  \<^verbatim>\<open>fileMap\<close> when its path has no parent path (and is not \<^verbatim>\<open>__proto__\<close>), or
  when an earlier entry has the same parent path. Every key of \<^verbatim>\<open>folderMap\<close> is a
  proper path prefix of the path of an entry; the parent path of every entry, and the
  parent path of that one, are keys of \<^verbatim>\<open>folderMap\<close>, and so is the path of an entry
  that ends with the separator, with the separator stripped. The two key sets are
  disjoint when no file entry has the path of a registered directory. Nothing is said
  of a file entry that is the first entry of its directory, nor of the remoter prefixes.
\<close>

theorem C7_indices:
  assumes "parseZipAsTree lc bn es = Some (Inr r)"
  shows "distinct (js_keys (fileMap r)) \<and> distinct (js_keys (folderMap r)) \<and>
         (\<forall>(k, v) \<in> set (fileMap r). \<exists>e \<in> set es. \<not> isDirectory e \<and> entryName e = k \<and> v = entry_of e) \<and>
         (\<forall>pre e post.
            es = pre @ e # post \<and> \<not> isDirectory e \<and>
            (\<not> has_parent (entryName e) \<and> entryName e \<noteq> ''__proto__'' \<or>
             has_parent (entryName e) \<and>
             (\<exists>e' \<in> set pre. has_parent (entryName e') \<and>
                 parent_path (entryName e') = parent_path (entryName e))) \<longrightarrow>
            entryName e \<in> set (js_keys (fileMap r))) \<and>
         (\<forall>k \<in> set (js_keys (folderMap r)). \<exists>e \<in> set es. ancestor k (entryName e)) \<and>
         (\<forall>e \<in> set es. has_parent (entryName e) \<longrightarrow>
            parent_path (entryName e) \<in> set (js_keys (folderMap r)) \<and>
            (has_parent (parent_path (entryName e)) \<longrightarrow>
               parent_path (parent_path (entryName e)) \<in> set (js_keys (folderMap r)))) \<and>
         (\<forall>e \<in> set es. \<forall>p. entryName e = p @ ''/'' \<longrightarrow> p \<in> set (js_keys (folderMap r))) \<and>
         ((\<forall>e \<in> set es. \<not> isDirectory e \<longrightarrow> entryName e \<notin> set (js_keys (folderMap r))) \<longrightarrow>
            set (js_keys (fileMap r)) \<inter> set (js_keys (folderMap r)) = {})"
proof -
  from assms(1) obtain st where st: "build bn es = Inr st" and r: "r = finalized_state lc st"
    by (rule parseZipAsTree_InrE)
  have fm: "fileMap r = fileMap st"
    by (simp add: r finalized_state_simps)
  have keys: "js_keys (folderMap r) = js_keys (folderMap st)"
    unfolding r by (rule js_keys_finalized_state)
  have 1: "distinct (js_keys (fileMap r))"
    unfolding fm by (rule build_fileMap_distinct [OF st])
  have 2: "distinct (js_keys (folderMap r))"
    unfolding keys by (rule build_distinct [OF st])
  have 3: "\<exists>e \<in> set es. \<not> isDirectory e \<and> entryName e = k \<and> v = entry_of e"
    if "(k, v) \<in> set (fileMap r)" for k v
    using build_fileMap_source [OF st, of k v] in_set_js_get [OF 1 that] by (simp add: fm)
  have 4: "entryName e \<in> set (js_keys (fileMap r))"
    if es: "es = pre @ e # post" and nd: "\<not> isDirectory e"
      and c: "\<not> has_parent (entryName e) \<and> entryName e \<noteq> ''__proto__'' \<or>
             has_parent (entryName e) \<and>
             (\<exists>e' \<in> set pre. has_parent (entryName e') \<and>
                 parent_path (entryName e') = parent_path (entryName e))"
    for pre e post
  proof (cases "has_parent (entryName e)")
    case False
    have "e \<in> set es" by (simp add: es)
    from build_fileMap_root [OF st this nd False] c False show ?thesis
      by (simp add: fm)
  next
    case True
    with c have "\<exists>e' \<in> set pre. has_parent (entryName e') \<and>
                 parent_path (entryName e') = parent_path (entryName e)"
      by simp
    from build_fileMap_child [OF st [unfolded es] nd True this] show ?thesis
      by (simp add: fm)
  qed
  have 5: "\<exists>e \<in> set es. ancestor k (entryName e)" if "k \<in> set (js_keys (folderMap r))" for k
    using build_keys_ancestor [OF st] that by (simp add: keys)
  have 6: "parent_path (entryName e) \<in> set (js_keys (folderMap r)) \<and>
            (has_parent (parent_path (entryName e)) \<longrightarrow>
               parent_path (parent_path (entryName e)) \<in> set (js_keys (folderMap r)))"
    if "e \<in> set es" "has_parent (entryName e)" for e
    unfolding keys build_keys [OF st] using that by blast
  have 7: "p \<in> set (js_keys (folderMap r))" if "e \<in> set es" "entryName e = p @ ''/''" for e p
  proof -
    have "has_parent (entryName e)" "parent_path (entryName e) = p"
      using parent_path_trailing_slash [of p] by (simp_all add: that has_parent_def parent_path_def)
    with 6 [OF that(1)] show ?thesis by simp
  qed
  have 8: "set (js_keys (fileMap r)) \<inter> set (js_keys (folderMap r)) = {}"
    if no: "\<forall>e \<in> set es. \<not> isDirectory e \<longrightarrow> entryName e \<notin> set (js_keys (folderMap r))"
  proof -
    have False if k: "k \<in> set (js_keys (fileMap r))" "k \<in> set (js_keys (folderMap r))" for k
    proof -
      from k(1) obtain v where "(k, v) \<in> set (fileMap r)"
        by (auto simp: set_js_keys)
      from 3 [OF this] no k(2) show False by blast
    qed
    then show ?thesis by blast
  qed
  have a: "\<forall>(k, v) \<in> set (fileMap r). \<exists>e \<in> set es. \<not> isDirectory e \<and> entryName e = k \<and> v = entry_of e"
    using 3 by blast
  have b: "\<forall>pre e post.
            es = pre @ e # post \<and> \<not> isDirectory e \<and>
            (\<not> has_parent (entryName e) \<and> entryName e \<noteq> ''__proto__'' \<or>
             has_parent (entryName e) \<and>
             (\<exists>e' \<in> set pre. has_parent (entryName e') \<and>
                 parent_path (entryName e') = parent_path (entryName e))) \<longrightarrow>
            entryName e \<in> set (js_keys (fileMap r))"
    using 4 by blast
  have c: "\<forall>k \<in> set (js_keys (folderMap r)). \<exists>e \<in> set es. ancestor k (entryName e)"
    using 5 by blast
  have d: "\<forall>e \<in> set es. has_parent (entryName e) \<longrightarrow>
            parent_path (entryName e) \<in> set (js_keys (folderMap r)) \<and>
            (has_parent (parent_path (entryName e)) \<longrightarrow>
               parent_path (parent_path (entryName e)) \<in> set (js_keys (folderMap r)))"
    using 6 by blast
  have e: "\<forall>e \<in> set es. \<forall>p. entryName e = p @ ''/'' \<longrightarrow> p \<in> set (js_keys (folderMap r))"
    using 7 by blast
  have f: "(\<forall>e \<in> set es. \<not> isDirectory e \<longrightarrow> entryName e \<notin> set (js_keys (folderMap r))) \<longrightarrow>
            set (js_keys (fileMap r)) \<inter> set (js_keys (folderMap r)) = {}"
    using 8 by blast
  from 1 2 a b c d e f show ?thesis by (intro conjI)
qed

theorem C7_indices_witness:
  "parseZipAsTree codepoint_compare posix_basename explicit_dir_and_file =
     Some (Inr \<lparr> files = [Ref ''x''],
       fileMap = [(''x/y.txt'', entry_of (file_entry ''x/y.txt'' ''y.txt'' 5))],
       folderMap = [(''x'',
         \<lparr> dirIsDirectory = True,
           children = [Origin (dir_entry ''x/'' ''x''), entry_of (file_entry ''x/y.txt'' ''y.txt'' 5)],
           dirEntryName = ''x'', dirName = ''x'',
           dirFileSize = Some (PrettyBytes (Some 5)),
           dirCompressedSize = Some (PrettyBytes (Some 5)) \<rparr>)] \<rparr>) \<and>
   explicit_dir_and_file = [dir_entry ''x/'' ''x''] @ file_entry ''x/y.txt'' ''y.txt'' 5 # [] \<and>
   \<not> isDirectory (file_entry ''x/y.txt'' ''y.txt'' 5) \<and>
   has_parent (entryName (file_entry ''x/y.txt'' ''y.txt'' 5)) \<and>
   has_parent (entryName (dir_entry ''x/'' ''x'')) \<and>
   parent_path (entryName (dir_entry ''x/'' ''x'')) = parent_path (entryName (file_entry ''x/y.txt'' ''y.txt'' 5)) \<and>
   entryName (file_entry ''x/y.txt'' ''y.txt'' 5) \<in> set [''x/y.txt''] \<and>
   entryName (file_entry ''x/y.txt'' ''y.txt'' 5) \<notin> set [''x''] \<and>
   set [''x/y.txt''] \<inter> set [''x''] = {}"
  (is "?run = Some (Inr ?r) \<and> ?split \<and> ?isfile \<and> ?hp \<and> ?hp' \<and> ?same \<and> ?indexed \<and> ?no \<and> ?disj")
proof -
  have run: "?run = Some (Inr ?r)" by code_simp
  have split: ?split by (simp add: explicit_dir_and_file_def)
  have isfile: ?isfile by (simp add: file_entry_def)
  have hp: ?hp by code_simp
  have hp': ?hp' by code_simp
  have same: ?same by code_simp
  have no: ?no by (simp add: file_entry_def)
  have all: "\<forall>e \<in> set explicit_dir_and_file. \<not> isDirectory e \<longrightarrow> entryName e \<notin> set [''x'']"
    by (simp add: explicit_dir_and_file_def file_entry_def dir_entry_def)
  have fkeys: "js_keys (folderMap ?r) = [''x'']" and mkeys: "js_keys (fileMap ?r) = [''x/y.txt'']"
    by simp_all
  have "\<forall>pre e post.
            explicit_dir_and_file = pre @ e # post \<and> \<not> isDirectory e \<and>
            (\<not> has_parent (entryName e) \<and> entryName e \<noteq> ''__proto__'' \<or>
             has_parent (entryName e) \<and>
             (\<exists>e' \<in> set pre. has_parent (entryName e') \<and>
                 parent_path (entryName e') = parent_path (entryName e))) \<longrightarrow>
            entryName e \<in> set (js_keys (fileMap ?r))"
    by (rule C7_indices [OF run, THEN conjunct2, THEN conjunct2, THEN conjunct2, THEN conjunct1])
  then have "explicit_dir_and_file = [dir_entry ''x/'' ''x''] @ file_entry ''x/y.txt'' ''y.txt'' 5 # [] \<and>
      \<not> isDirectory (file_entry ''x/y.txt'' ''y.txt'' 5) \<and>
      (\<not> has_parent (entryName (file_entry ''x/y.txt'' ''y.txt'' 5)) \<and>
         entryName (file_entry ''x/y.txt'' ''y.txt'' 5) \<noteq> ''__proto__'' \<or>
       has_parent (entryName (file_entry ''x/y.txt'' ''y.txt'' 5)) \<and>
       (\<exists>e' \<in> set [dir_entry ''x/'' ''x'']. has_parent (entryName e') \<and>
           parent_path (entryName e') = parent_path (entryName (file_entry ''x/y.txt'' ''y.txt'' 5)))) \<longrightarrow>
      entryName (file_entry ''x/y.txt'' ''y.txt'' 5) \<in> set (js_keys (fileMap ?r))"
    by blast
  then have indexed: ?indexed
    using split isfile hp hp' same unfolding mkeys by simp
  have "(\<forall>e \<in> set explicit_dir_and_file. \<not> isDirectory e \<longrightarrow> entryName e \<notin> set (js_keys (folderMap ?r))) \<longrightarrow>
          set (js_keys (fileMap ?r)) \<inter> set (js_keys (folderMap ?r)) = {}"
    by (rule C7_indices [OF run, THEN conjunct2, THEN conjunct2, THEN conjunct2, THEN conjunct2,
          THEN conjunct2, THEN conjunct2, THEN conjunct2])
  then have disj: ?disj
    using all unfolding fkeys mkeys by (simp only:)
  from run split isfile hp hp' same indexed no disj show ?thesis by (intro conjI)
qed

subsection \<open>C8: a file with the path of a directory\<close>

text \<open>
  C8, as stated, at the input \<^verbatim>\<open>x/y.txt\<close> followed by a file \<^verbatim>\<open>x\<close>: the path
  \<^verbatim>\<open>x\<close> is registered as a directory when the file \<^verbatim>\<open>x\<close> is processed, and the file
  is not dropped: it is in the root sequence, next to the directory, and in \<^verbatim>\<open>fileMap\<close>.
\<close>

theorem C8_colliding_file_is_kept:
  "map_option (map_sum id (\<lambda>r. (files r, js_keys (fileMap r), js_keys (folderMap r))))
       (parseZipAsTree codepoint_compare posix_basename collision) =
     Some (Inr ([Ref ''x'', entry_of (file_entry ''x'' ''x'' 2)], [''x''], [''x'']))"
  by code_simp

text \<open>
  C8, amended: when the function returns, a file entry whose full path is a key of
  \<^verbatim>\<open>folderMap\<close> is kept: it is in the tree, at the root or under the directory of its
  parent path, and when it has no parent path it is a key of \<^verbatim>\<open>fileMap\<close> as well, so
  that the path is a key of both maps.
\<close>

theorem C8_file_with_directory_path_is_placed:
  assumes "parseZipAsTree lc bn es = Some (Inr r)" and "e \<in> set es" and "\<not> isDirectory e"
    and "entryName e \<in> set (js_keys (folderMap r))"
  shows "placed r e \<and>
         (\<not> has_parent (entryName e) \<longrightarrow>
            entry_of e \<in> set (files r) \<and> entryName e \<in> set (js_keys (fileMap r)))"
proof -
  from assms(1) obtain st where st: "build bn es = Inr st" and r: "r = finalized_state lc st"
    by (rule parseZipAsTree_InrE)
  have placed: "placed r e"
    unfolding r placed_finalized_state by (rule build_placed [OF st assms(2)])
  have "proto_free (folderMap st)"
    by (rule build_proto_free [OF st])
  with assms(4) have "entryName e \<notin> set object_prototype_names"
    by (auto simp: r js_keys_finalized_state proto_free_def)
  then have np: "entryName e \<noteq> ''__proto__''"
    by (auto simp: object_prototype_names_def)
  have "entryName e \<in> set (js_keys (fileMap r))" if "\<not> has_parent (entryName e)"
    using build_fileMap_root [OF st assms(2,3) that np] by (simp add: r finalized_state_simps)
  with placed show ?thesis by (simp add: placed_def)
qed

theorem C8_file_with_directory_path_is_placed_witness:
  "parseZipAsTree codepoint_compare posix_basename collision =
     Some (Inr \<lparr> files = [Ref ''x'', entry_of (file_entry ''x'' ''x'' 2)],
       fileMap = [(''x'', entry_of (file_entry ''x'' ''x'' 2))],
       folderMap = [(''x'',
         \<lparr> dirIsDirectory = True,
           children = [entry_of (file_entry ''x/y.txt'' ''y.txt'' 1)],
           dirEntryName = ''x'', dirName = ''x'',
           dirFileSize = Some (PrettyBytes (Some 1)),
           dirCompressedSize = Some (PrettyBytes (Some 1)) \<rparr>)] \<rparr>) \<and>
   file_entry ''x'' ''x'' 2 \<in> set collision \<and>
   \<not> isDirectory (file_entry ''x'' ''x'' 2) \<and>
   entryName (file_entry ''x'' ''x'' 2) \<in> set [''x''] \<and>
   \<not> has_parent (entryName (file_entry ''x'' ''x'' 2)) \<and>
   entry_of (file_entry ''x'' ''x'' 2) \<in> set [Ref ''x'', entry_of (file_entry ''x'' ''x'' 2)] \<and>
   entryName (file_entry ''x'' ''x'' 2) \<in> set [''x'']"
  (is "?run = Some (Inr ?r) \<and> ?mem \<and> ?isfile \<and> ?key \<and> ?root \<and> ?in1 \<and> ?in2")
proof -
  have run: "?run = Some (Inr ?r)" by code_simp
  have mem: ?mem by (simp add: collision_def)
  have isfile: ?isfile by (simp add: file_entry_def)
  have key: ?key by (simp add: file_entry_def)
  have root: ?root by (simp add: file_entry_def has_parent_def parent_segments_def)
  have key': "entryName (file_entry ''x'' ''x'' 2) \<in> set (js_keys (folderMap ?r))"
    using key by simp
  have "?in1 \<and> ?in2"
    using C8_file_with_directory_path_is_placed [OF run mem isfile key'] root by simp
  with run mem isfile key root show ?thesis by (intro conjI) simp_all
qed

subsection \<open>C9: the last phase is idempotent\<close>

text \<open>
  C9: for a \<^verbatim>\<open>localeCompare\<close> that is a total preorder, running lines 68 to 74 again
  on the value that the function returned gives the same value: the same aggregates and
  the same order of the roots and of every \<^verbatim>\<open>children\<close> array.
\<close>

theorem C9_finalize_idempotent:
  assumes "total_preorder lc" and "parseZipAsTree lc bn es = Some (Inr r)"
  shows "finalize lc r = Some r"
proof -
  from assms(2) obtain st where st: "build bn es = Inr st" and r: "r = finalized_state lc st"
    by (rule parseZipAsTree_InrE)
  have sh: "same_shape (folderMap st) (folderMap r)"
    unfolding r by (rule same_shape_finalized_state)
  have "refs_closed (folderMap r)"
    by (rule same_shape_refs_closed [OF sh build_refs_closed [OF st]])
  moreover have "distinct (js_keys (folderMap r))"
    unfolding r js_keys_finalized_state by (rule build_distinct [OF st])
  ultimately have "finalize lc r = Some (finalized_state lc r)"
    by (intro finalize_eq)
  then show ?thesis
    unfolding r by (simp only: finalized_state_idem [OF assms(1)])
qed

theorem C9_finalize_idempotent_witness:
  "total_preorder codepoint_compare \<and>
   parseZipAsTree codepoint_compare posix_basename explicit_dir_and_file =
     Some (Inr \<lparr> files = [Ref ''x''],
       fileMap = [(''x/y.txt'', entry_of (file_entry ''x/y.txt'' ''y.txt'' 5))],
       folderMap = [(''x'',
         \<lparr> dirIsDirectory = True,
           children = [Origin (dir_entry ''x/'' ''x''), entry_of (file_entry ''x/y.txt'' ''y.txt'' 5)],
           dirEntryName = ''x'', dirName = ''x'',
           dirFileSize = Some (PrettyBytes (Some 5)),
           dirCompressedSize = Some (PrettyBytes (Some 5)) \<rparr>)] \<rparr>) \<and>
   finalize codepoint_compare
     \<lparr> files = [Ref ''x''],
       fileMap = [(''x/y.txt'', entry_of (file_entry ''x/y.txt'' ''y.txt'' 5))],
       folderMap = [(''x'',
         \<lparr> dirIsDirectory = True,
           children = [Origin (dir_entry ''x/'' ''x''), entry_of (file_entry ''x/y.txt'' ''y.txt'' 5)],
           dirEntryName = ''x'', dirName = ''x'',
           dirFileSize = Some (PrettyBytes (Some 5)),
           dirCompressedSize = Some (PrettyBytes (Some 5)) \<rparr>)] \<rparr> =
     Some \<lparr> files = [Ref ''x''],
       fileMap = [(''x/y.txt'', entry_of (file_entry ''x/y.txt'' ''y.txt'' 5))],
       folderMap = [(''x'',
         \<lparr> dirIsDirectory = True,
           children = [Origin (dir_entry ''x/'' ''x''), entry_of (file_entry ''x/y.txt'' ''y.txt'' 5)],
           dirEntryName = ''x'', dirName = ''x'',
           dirFileSize = Some (PrettyBytes (Some 5)),
           dirCompressedSize = Some (PrettyBytes (Some 5)) \<rparr>)] \<rparr>"
  (is "?tp \<and> ?run = Some (Inr ?r) \<and> ?idem")
proof -
  have tp: ?tp by (rule total_preorder_codepoint_compare)
  have run: "?run = Some (Inr ?r)" by code_simp
  have "?idem" by (rule C9_finalize_idempotent [OF tp run])
  with tp run show ?thesis by (intro conjI)
qed

subsection \<open>C10: what the builder stores in folderMap\<close>

text \<open>
  C10: when the two passes of the builder are done, every value of \<^verbatim>\<open>folderMap\<close> is
  an object of lines 47 to 52: \<^verbatim>\<open>isDirectory\<close> is true, \<^verbatim>\<open>entryName\<close> is the key,
  that is the parent path, \<^verbatim>\<open>name\<close> is its \<^verbatim>\<open>basename\<close> (with
  \<^verbatim>\<open>path.posix.basename\<close>: the last segment of the key, when that segment is not
  empty), it has children and it has no other field (the two size strings are added by
  lines 71 and 72 afterwards). An
  entry of the archive that records a directory, with an \<^verbatim>\<open>entryName\<close> that ends with
  the separator, is a child of the object stored under its path without the separator.
\<close>

theorem C10_folderMap_holds_synthesized_nodes:
  assumes "build bn es = Inr st"
  shows "(\<forall>(k, d) \<in> set (folderMap st).
            dirIsDirectory d \<and> dirEntryName d = k \<and> dirName d = bn k \<and> children d \<noteq> [] \<and>
            dirFileSize d = None \<and> dirCompressedSize d = None \<and>
            (bn = posix_basename \<and> last (split k) \<noteq> [] \<longrightarrow> dirName d = last (split k))) \<and>
         (\<forall>e \<in> set es. \<forall>p. isDirectory e \<and> entryName e = p @ ''/'' \<longrightarrow>
            (\<exists>d. js_get (folderMap st) p = Some d \<and> Origin e \<in> set (children d)))"
proof -
  from assms obtain ks where "distinct ks"
    and "set ks = {parent_path (entryName e) |e. e \<in> set es \<and> has_parent (entryName e)}"
    and get: "\<And>k. js_get (folderMap st) k =
            extend_dir bn k None (children_for k (map origin_item es) @ children_for k (map ref_item ks))"
    and "files st = roots_of (map origin_item es) @ roots_of (map ref_item ks)"
    and "set ks \<subseteq> set (js_keys (folderMap st))"
    by (rule build_folderMap) blast
  have new: "extend_dir bn k None cs = Some d \<Longrightarrow> d = new_dir bn k cs \<and> cs \<noteq> []" for k cs d
    by (cases cs) auto
  have 1: "dirIsDirectory d \<and> dirEntryName d = k \<and> dirName d = bn k \<and> children d \<noteq> [] \<and>
           dirFileSize d = None \<and> dirCompressedSize d = None \<and>
           (bn = posix_basename \<and> last (split k) \<noteq> [] \<longrightarrow> dirName d = last (split k))"
    if "(k, d) \<in> set (folderMap st)" for k d
  proof -
    have "js_get (folderMap st) k = Some d"
      by (rule in_set_js_get [OF build_distinct [OF assms] that])
    then have "dirIsDirectory d \<and> dirEntryName d = k \<and> dirName d = bn k \<and> children d \<noteq> [] \<and>
           dirFileSize d = None \<and> dirCompressedSize d = None"
      unfolding get by (auto dest!: new simp: new_dir_def)
    then show ?thesis
      by (simp add: posix_basename_last_segment)
  qed
  have 2: "\<exists>d. js_get (folderMap st) p = Some d \<and> Origin e \<in> set (children d)"
    if e: "e \<in> set es" "isDirectory e" "entryName e = p @ ''/''" for e p
  proof -
    have "has_parent (entryName e)" "parent_path (entryName e) = p"
      using parent_path_trailing_slash [of p] by (simp_all add: e has_parent_def parent_path_def)
    moreover have "entry_of e = Origin e"
      using e(2) by (simp add: entry_of_def make_entry_def)
    ultimately have "Origin e \<in> set (children_for p (map origin_item es))"
      using e(1) by (force simp: children_for_def origin_item_def)
    then have "Origin e \<in> set (children_for p (map origin_item es) @ children_for p (map ref_item ks))"
      (is "_ \<in> set ?cs") by simp
    moreover from this have "extend_dir bn p None ?cs = Some (new_dir bn p ?cs)"
      by (cases ?cs) auto
    ultimately show ?thesis
      unfolding get by (simp add: new_dir_def)
  qed
  from 1 2 show ?thesis by blast
qed

theorem C10_folderMap_holds_synthesized_nodes_witness:
  "build posix_basename explicit_dir_and_file =
     Inr \<lparr> files = [Ref ''x''],
       fileMap = [(''x/y.txt'', entry_of (file_entry ''x/y.txt'' ''y.txt'' 5))],
       folderMap = [(''x'',
         \<lparr> dirIsDirectory = True,
           children = [Origin (dir_entry ''x/'' ''x''), entry_of (file_entry ''x/y.txt'' ''y.txt'' 5)],
           dirEntryName = ''x'', dirName = ''x'',
           dirFileSize = None, dirCompressedSize = None \<rparr>)] \<rparr> \<and>
   dir_entry ''x/'' ''x'' \<in> set explicit_dir_and_file \<and>
   isDirectory (dir_entry ''x/'' ''x'') \<and> entryName (dir_entry ''x/'' ''x'') = ''x'' @ ''/'' \<and>
   (\<exists>d. js_get [(''x'',
         \<lparr> dirIsDirectory = True,
           children = [Origin (dir_entry ''x/'' ''x''), entry_of (file_entry ''x/y.txt'' ''y.txt'' 5)],
           dirEntryName = ''x'', dirName = ''x'',
           dirFileSize = None, dirCompressedSize = None \<rparr>)] ''x'' = Some d \<and>
        Origin (dir_entry ''x/'' ''x'') \<in> set (children d))"
  (is "?run = Inr ?st \<and> ?mem \<and> ?isdir \<and> ?name \<and> ?child")
proof -
  have run: "?run = Inr ?st" by code_simp
  have mem: ?mem by (simp add: explicit_dir_and_file_def)
  have isdir: ?isdir by (simp add: dir_entry_def)
  have name: ?name by (simp add: dir_entry_def)
  have ?child
    using C10_folderMap_holds_synthesized_nodes [OF run] mem isdir name by simp
  with run mem isdir name show ?thesis by (intro conjI)
qed


end
